theory Spec2Isabelle
  imports Main "HOL-Library.Multiset"
begin

section \<open>s3-janitor: the data of \<^verbatim>\<open>janitor.py\<close>\<close>

text \<open>
  \<^verbatim>\<open>purge\<close> reads three things from outside: the calendar date (\<^verbatim>\<open>date.today()\<close>),
  the pages that the \<^verbatim>\<open>list_objects\<close> paginator yields for the bucket, and the outcome
  of each \<^verbatim>\<open>client.delete_objects\<close> request. The model takes them as explicit inputs.
  An exception is a value of type \<open>error\<close>. The network requests that a run issues are
  recorded, in order, in a trace.

  Time: a \<^verbatim>\<open>date\<close> is the number of days since 1970-01-01, an aware \<^verbatim>\<open>datetime\<close> is
  the number of microseconds (the resolution of \<^verbatim>\<open>datetime\<close>) since
  1970-01-01T00:00:00Z. Aware datetimes compare by instant, so \<^verbatim>\<open><=\<close> is \<open>\<le>\<close> on
  these numbers.
\<close>

datatype error =
    OverflowError           \<comment> \<open>date arithmetic out of range\<close>
  | KeyError string         \<comment> \<open>a dict lookup of a missing key\<close>
  | ListError               \<comment> \<open>whatever a page request of the paginator raises\<close>
  | DeleteError             \<comment> \<open>whatever \<^verbatim>\<open>client.delete_objects\<close> raises\<close>
  | ListBucketsError        \<comment> \<open>whatever \<^verbatim>\<open>client.list_buckets\<close> raises\<close>
  | SystemExit string

record obj =
  Key :: string
  LastModified :: int

text \<open>A listing page is a dict; \<^verbatim>\<open>'Contents'\<close> may be missing from it.\<close>

record page =
  Contents :: "obj list option"

text \<open>One request of the paginator either yields a page or raises.\<close>

datatype fetch = Page page | Raises

datatype event =
    ListObjects nat                \<comment> \<open>the request for page number \<open>i\<close> (counted from 1)\<close>
  | DeleteObjects "string list"    \<comment> \<open>a \<^verbatim>\<open>delete_objects\<close> request with these keys\<close>

text \<open>
  What the client of one bucket sees: the outcomes of the successive page requests, and
  whether a delete request raises, given the number of delete requests made before it and
  its keys.
\<close>

record s3 =
  pages :: "fetch list"
  delete_raises :: "nat \<Rightarrow> string list \<Rightarrow> bool"

text \<open>The local variables of \<^verbatim>\<open>purge\<close> that live across the loops, and the trace.\<close>

record purge_state =
  total :: nat
  to_be_deleted :: "string list"
  trace :: "event list"

type_synonym run = "error option \<times> purge_state"

section \<open>The cutoff\<close>

text \<open>
  \<^verbatim>\<open>datetime.combine(date.today(), datetime.min.time(), tzinfo=tzutc()) - timedelta(days=max_days)\<close>:
  midnight of the date \<^verbatim>\<open>date.today()\<close> returns, labelled UTC, minus \<open>max_days\<close> days.
  \<^verbatim>\<open>timedelta\<close> raises OverflowError beyond 999999999 days, and the subtraction raises it
  when the result leaves 0001-01-01 .. 9999-12-31.
\<close>

definition date_min :: int where
  "date_min = - 719162"

definition date_max :: int where
  "date_max = 2932896"

definition usec_per_day :: int where
  "usec_per_day = 86400000000"

definition compute_cutoff :: "int \<Rightarrow> int \<Rightarrow> error + int" where
  "compute_cutoff today max_days =
     (if \<bar>max_days\<bar> > 999999999 then Inl OverflowError
      else let d = today - max_days
           in if d < date_min \<or> date_max < d then Inl OverflowError
              else Inr (d * usec_per_day))"

section \<open>purge\<close>

text \<open>
  The inner loop (lines 59-66): every object at or before the cutoff has its key
  appended to \<open>page_queue\<close> and is counted in \<open>total\<close>.
\<close>

fun scan_objs :: "int \<Rightarrow> obj list \<Rightarrow> string list \<times> nat \<Rightarrow> string list \<times> nat" where
  "scan_objs cutoff [] (page_queue, tot) = (page_queue, tot)"
| "scan_objs cutoff (ob # objs) (page_queue, tot) =
     (if LastModified ob \<le> cutoff
      then scan_objs cutoff objs (page_queue @ [Key ob], tot + 1)
      else scan_objs cutoff objs (page_queue, tot))"

fun delete_calls_of :: "event list \<Rightarrow> string list list" where
  "delete_calls_of [] = []"
| "delete_calls_of (DeleteObjects ks # es) = ks # delete_calls_of es"
| "delete_calls_of (ListObjects i # es) = delete_calls_of es"

text \<open>\<^verbatim>\<open>client.delete_objects(Bucket=bucket, Delete={'Objects': ..., 'Quiet': True})\<close>\<close>

definition delete_objects :: "s3 \<Rightarrow> string list \<Rightarrow> purge_state \<Rightarrow> run" where
  "delete_objects client ks s =
     (let s' = s\<lparr>trace := trace s @ [DeleteObjects ks]\<rparr>
      in if delete_raises client (length (delete_calls_of (trace s))) ks
         then (Some DeleteError, s') else (None, s'))"

text \<open>\<^verbatim>\<open>if not dry_run: client.delete_objects(...)\<close> (lines 73-80 and 99-106)\<close>

definition delete_unless_dry :: "s3 \<Rightarrow> bool \<Rightarrow> string list \<Rightarrow> purge_state \<Rightarrow> run" where
  "delete_unless_dry client dry_run ks s =
     (if \<not> dry_run then delete_objects client ks s else (None, s))"

text \<open>
  The listing loop (lines 54-83), over the outcomes of the page requests that are still
  to come; \<open>i\<close> is the page number of \<^verbatim>\<open>enumerate(bucket_iterator, 1)\<close>.
\<close>

fun purge_loop :: "s3 \<Rightarrow> int \<Rightarrow> bool \<Rightarrow> bool \<Rightarrow> nat \<Rightarrow> fetch list \<Rightarrow> purge_state \<Rightarrow> run" where
  "purge_loop client cutoff list_then_delete dry_run i [] s = (None, s)"
| "purge_loop client cutoff list_then_delete dry_run i (Raises # rest) s =
     (Some ListError, s\<lparr>trace := trace s @ [ListObjects i]\<rparr>)"
| "purge_loop client cutoff list_then_delete dry_run i (Page p # rest) s =
     (let s1 = s\<lparr>trace := trace s @ [ListObjects i]\<rparr>
      in case Contents p of
           None \<Rightarrow> (Some (KeyError ''Contents''), s1)
         | Some objs \<Rightarrow>
             (case scan_objs cutoff objs ([], total s1) of
                (page_queue, tot) \<Rightarrow>
                  (let s2 = s1\<lparr>total := tot\<rparr>
                   in if \<not> list_then_delete \<and> page_queue \<noteq> []
                      then (case delete_unless_dry client dry_run page_queue s2 of
                              (Some e, s3) \<Rightarrow> (Some e, s3)
                            | (None, s3) \<Rightarrow>
                                purge_loop client cutoff list_then_delete dry_run (i + 1) rest
                                  (s3\<lparr>to_be_deleted := to_be_deleted s3 @ []\<rparr>))
                      else purge_loop client cutoff list_then_delete dry_run (i + 1) rest
                             (s2\<lparr>to_be_deleted := to_be_deleted s2 @ page_queue\<rparr>))))"

text \<open>
  \<^verbatim>\<open>[to_be_deleted[i:i + 1000] for i in range(0, len(to_be_deleted), 1000)]\<close>:
  a slice stops at the end of the list.
\<close>

definition slice :: "'a list \<Rightarrow> nat \<Rightarrow> nat \<Rightarrow> 'a list" where
  "slice xs i j = take (j - i) (drop i xs)"

definition range_step :: "nat \<Rightarrow> nat \<Rightarrow> nat list" where
  "range_step n step = map (\<lambda>k. k * step) [0..<(n + step - 1) div step]"

definition chunks :: "'a list \<Rightarrow> 'a list list" where
  "chunks xs = map (\<lambda>i. slice xs i (i + 1000)) (range_step (length xs) 1000)"

text \<open>The loop over the chunks (lines 97-106).\<close>

fun delete_chunks :: "s3 \<Rightarrow> bool \<Rightarrow> string list list \<Rightarrow> purge_state \<Rightarrow> run" where
  "delete_chunks client dry_run [] s = (None, s)"
| "delete_chunks client dry_run (chunk # rest) s =
     (case delete_unless_dry client dry_run chunk s of
        (Some e, s') \<Rightarrow> (Some e, s')
      | (None, s') \<Rightarrow> delete_chunks client dry_run rest s')"

definition init_state :: purge_state where
  "init_state = \<lparr>total = 0, to_be_deleted = [], trace = []\<rparr>"

text \<open>
  \<^verbatim>\<open>purge\<close>. The client is built from the credentials and the endpoint; the model takes
  what that client sees. \<open>today\<close> is the date \<^verbatim>\<open>date.today()\<close> returns when it is called at
  line 41. The logging calls are left out but the last one.
\<close>

definition purge :: "s3 \<Rightarrow> int \<Rightarrow> int \<Rightarrow> bool \<Rightarrow> bool \<Rightarrow> run" where
  "purge client today max_days list_then_delete dry_run =
     (case compute_cutoff today max_days of
        Inl e \<Rightarrow> (Some e, init_state)
      | Inr cutoff \<Rightarrow>
          (case purge_loop client cutoff list_then_delete dry_run 1 (pages client) init_state of
             (Some e, s) \<Rightarrow> (Some e, s)
           | (None, s) \<Rightarrow>
               if to_be_deleted s \<noteq> []
               then delete_chunks client dry_run (chunks (to_be_deleted s)) s
               else (None, s)))"

text \<open>
  \<^verbatim>\<open>purge\<close> returns nothing; what it reports is the last log line,
  \<^verbatim>\<open>Finished deletion of {total} objects\<close>, reached only when nothing was raised.
\<close>

definition reported :: "run \<Rightarrow> nat option" where
  "reported r = (case fst r of None \<Rightarrow> Some (total (snd r)) | Some e \<Rightarrow> None)"

definition delete_calls :: "run \<Rightarrow> string list list" where
  "delete_calls r = delete_calls_of (trace (snd r))"

section \<open>do\<close>

text \<open>
  The parsed arguments that \<^verbatim>\<open>do\<close> reads. The credentials and the endpoint only go into
  the clients, which the model takes as given.
\<close>

record args =
  days :: int
  dry_run :: bool
  target_method :: string
  prefix :: "string option"
  buckets :: "string list option"
  delete_method :: string

text \<open>
  What \<^verbatim>\<open>do\<close> reads from outside: the date at line 139, the bucket names that
  \<^verbatim>\<open>list_buckets\<close> returns (or that it raises), and for the job of each bucket what its
  own client sees and the date that job reads at line 41. \<^verbatim>\<open>as_completed\<close> yields the
  futures in the order in which the jobs finish: \<open>completion\<close> lists their indices in
  that order.
\<close>

record world =
  clock_main :: int
  list_buckets :: "error + string list"
  bucket_client :: "string \<Rightarrow> s3"
  clock_job :: "string \<Rightarrow> int"
  completion :: "nat list"

fun startswith :: "string \<Rightarrow> string \<Rightarrow> bool" where
  "startswith s [] = True"
| "startswith [] (c # p) = False"
| "startswith (d # s) (c # p) = (d = c \<and> startswith s p)"

text \<open>\<^verbatim>\<open>not x\<close> for an optional string or list: it is missing or empty.\<close>

fun falsy :: "'a list option \<Rightarrow> bool" where
  "falsy None = True"
| "falsy (Some v) = (v = [])"

text \<open>"We can't do anything if we can't find anything" (lines 131-136).\<close>

definition check_targets :: "args \<Rightarrow> error option" where
  "check_targets a =
     (if target_method a = ''prefix''
      then (if falsy (prefix a) then Some (SystemExit ''No prefix provided'') else None)
      else (if falsy (buckets a) then Some (SystemExit ''No buckets provided'') else None))"

text \<open>
  The buckets that match the preferred method (lines 155-164). After the checks above
  the prefix, or the list of targets, is there; the case \<open>None\<close> is not reached.
\<close>

definition select_buckets :: "args \<Rightarrow> string list \<Rightarrow> string list" where
  "select_buckets a names =
     (if target_method a = ''prefix''
      then (case prefix a of
              Some bucket_prefix \<Rightarrow> filter (\<lambda>b. startswith b bucket_prefix) names
            | None \<Rightarrow> [])
      else (case buckets a of
              Some bucket_targets \<Rightarrow> filter (\<lambda>b. b \<in> set bucket_targets) names
            | None \<Rightarrow> []))"

text \<open>
  The loop over \<^verbatim>\<open>as_completed(jobs)\<close> (lines 178-182): the exception of a job that
  raised is logged and the loop goes on.
\<close>

fun log_failures :: "run list \<Rightarrow> error list" where
  "log_failures [] = []"
| "log_failures ((Some e, s) # jobs) = e # log_failures jobs"
| "log_failures ((None, s) # jobs) = log_failures jobs"

text \<open>
  \<^verbatim>\<open>do\<close>: a raise before the pool (SystemExit, the date arithmetic of line 138,
  \<^verbatim>\<open>list_buckets\<close>) ends it; otherwise it yields the outcome of the job of every
  selected bucket, in the order of submission, and the exceptions it logged. The jobs
  run on a thread pool and share no state: each is a call of \<^verbatim>\<open>purge\<close> with its own
  client.
\<close>

definition do :: "args \<Rightarrow> world \<Rightarrow> error + ((string \<times> run) list \<times> error list)" where
  "do a w =
     (let list_then_delete = (delete_method a = ''list_then_delete'')
      in case check_targets a of
           Some e \<Rightarrow> Inl e
         | None \<Rightarrow>
             (case compute_cutoff (clock_main w) (days a) of
                Inl e \<Rightarrow> Inl e
              | Inr cutoff \<Rightarrow>
                  (case list_buckets w of
                     Inl e \<Rightarrow> Inl e
                   | Inr names \<Rightarrow>
                       (let jobs = map (\<lambda>bucket. (bucket,
                              purge (bucket_client w bucket) (clock_job w bucket) (days a)
                                list_then_delete (dry_run a)))
                              (select_buckets a names)
                        in Inr (jobs,
                             log_failures (map (\<lambda>i. snd (jobs ! i)) (completion w)))))))"

section \<open>Notions for stating the properties\<close>

text \<open>The keys of the objects of a page that are at or before the cutoff, in page order.\<close>

definition eligible_keys :: "int \<Rightarrow> obj list \<Rightarrow> string list" where
  "eligible_keys cutoff objs = map Key (filter (\<lambda>ob. LastModified ob \<le> cutoff) objs)"

text \<open>The objects a page request yields; none when it raises or has no Contents.\<close>

fun objs_of :: "fetch \<Rightarrow> obj list" where
  "objs_of (Page p) = (case Contents p of Some objs \<Rightarrow> objs | None \<Rightarrow> [])"
| "objs_of Raises = []"

text \<open>A page request that yields a page with Contents.\<close>

fun fetch_ok :: "fetch \<Rightarrow> bool" where
  "fetch_ok (Page p) = (Contents p \<noteq> None)"
| "fetch_ok Raises = False"

definition listed_objs :: "fetch list \<Rightarrow> obj list" where
  "listed_objs fs = concat (map objs_of fs)"

definition all_eligible_keys :: "int \<Rightarrow> fetch list \<Rightarrow> string list" where
  "all_eligible_keys cutoff fs = concat (map (\<lambda>f. eligible_keys cutoff (objs_of f)) fs)"

text \<open>The non-empty per-page key lists, in page order.\<close>

definition per_page_calls :: "int \<Rightarrow> fetch list \<Rightarrow> string list list" where
  "per_page_calls cutoff fs =
     filter (\<lambda>ks. ks \<noteq> []) (map (\<lambda>f. eligible_keys cutoff (objs_of f)) fs)"

definition planned_calls :: "bool \<Rightarrow> int \<Rightarrow> fetch list \<Rightarrow> string list list" where
  "planned_calls list_then_delete cutoff fs =
     (if list_then_delete then chunks (all_eligible_keys cutoff fs) else per_page_calls cutoff fs)"

text \<open>
  The requests of a listing that runs to its end, from page number \<open>i\<close> on: each page
  request, followed at once by the delete request for the keys of that page when
  \<open>del\<close> holds and there are any.
\<close>

fun listing_trace :: "bool \<Rightarrow> int \<Rightarrow> nat \<Rightarrow> fetch list \<Rightarrow> event list" where
  "listing_trace del c i [] = []"
| "listing_trace del c i (f # fs) =
     ListObjects i #
     (if del \<and> eligible_keys c (objs_of f) \<noteq> []
      then [DeleteObjects (eligible_keys c (objs_of f))] else [])
     @ listing_trace del c (Suc i) fs"

text \<open>The state after the inner loop has run over the objects of page \<open>i\<close>.\<close>

definition after_scan :: "int \<Rightarrow> nat \<Rightarrow> obj list \<Rightarrow> purge_state \<Rightarrow> purge_state" where
  "after_scan c i objs s =
     s\<lparr>trace := trace s @ [ListObjects i], total := total s + length (eligible_keys c objs)\<rparr>"

text \<open>Whether the request \<open>ev\<close>, issued after the requests \<open>es\<close>, raises; and what.\<close>

fun request_raises :: "s3 \<Rightarrow> event list \<Rightarrow> event \<Rightarrow> bool" where
  "request_raises client es (DeleteObjects ks) =
     delete_raises client (length (delete_calls_of es)) ks"
| "request_raises client es (ListObjects k) =
     (0 < k \<and> k \<le> length (pages client) \<and> pages client ! (k - 1) = Raises)"

fun request_error :: "event \<Rightarrow> error" where
  "request_error (ListObjects k) = ListError"
| "request_error (DeleteObjects ks) = DeleteError"

text \<open>
  No request of a trace raised; and: a request that raises is the last request of the
  run, which ends in the error of that request.
\<close>

definition quiet :: "s3 \<Rightarrow> event list \<Rightarrow> bool" where
  "quiet client tr = (\<forall>es ev es'. tr = es @ ev # es' \<longrightarrow> \<not> request_raises client es ev)"

definition aborts_at_raise :: "s3 \<Rightarrow> run \<Rightarrow> bool" where
  "aborts_at_raise client r =
     (\<forall>es ev es'. trace (snd r) = es @ ev # es' \<longrightarrow> request_raises client es ev \<longrightarrow>
        es' = [] \<and> fst r = Some (request_error ev))"

section \<open>Example inputs\<close>

text \<open>Distinct keys, and objects last modified at the epoch, long before any cutoff used below.\<close>

definition ex_key :: "nat \<Rightarrow> string" where
  "ex_key n = ''k'' @ replicate (n div 50) (CHR ''a'') @ replicate (n mod 50) (CHR ''b'')"

definition old_objs :: "nat \<Rightarrow> nat \<Rightarrow> obj list" where
  "old_objs a b = map (\<lambda>n. \<lparr>Key = ex_key n, LastModified = 0\<rparr>) [a..<b]"

text \<open>A client whose delete requests never raise.\<close>

definition never :: "nat \<Rightarrow> string list \<Rightarrow> bool" where
  "never n ks = False"

text \<open>A bucket of 2500 old objects, listed in three pages.\<close>

definition ex_2500 :: s3 where
  "ex_2500 = \<lparr>pages = [Page \<lparr>Contents = Some (old_objs 0 1000)\<rparr>,
                        Page \<lparr>Contents = Some (old_objs 1000 2000)\<rparr>,
                        Page \<lparr>Contents = Some (old_objs 2000 2500)\<rparr>],
              delete_raises = never\<rparr>"

text \<open>
  A bucket listed in three pages, with two, none and three objects at or before the
  cutoff 2024-01-01T00:00:00Z (1704067200000000 microseconds after the epoch).
\<close>

definition ex_203 :: s3 where
  "ex_203 = \<lparr>pages =
      [Page \<lparr>Contents = Some [\<lparr>Key = ''a'', LastModified = 0\<rparr>,
                              \<lparr>Key = ''b'', LastModified = 1704067200000000\<rparr>,
                              \<lparr>Key = ''x'', LastModified = 1704067200000001\<rparr>]\<rparr>,
       Page \<lparr>Contents = Some [\<lparr>Key = ''y'', LastModified = 1704067200001000\<rparr>]\<rparr>,
       Page \<lparr>Contents = Some [\<lparr>Key = ''c'', LastModified = 0\<rparr>,
                              \<lparr>Key = ''d'', LastModified = 0\<rparr>,
                              \<lparr>Key = ''e'', LastModified = 0\<rparr>]\<rparr>],
     delete_raises = never\<rparr>"

text \<open>A bucket with one old object.\<close>

definition ex_one :: s3 where
  "ex_one = \<lparr>pages = [Page \<lparr>Contents = Some [\<lparr>Key = ''a'', LastModified = 0\<rparr>]\<rparr>],
             delete_raises = never\<rparr>"

text \<open>An empty bucket: the only page of its listing has no Contents.\<close>

definition ex_empty :: s3 where
  "ex_empty = \<lparr>pages = [Page \<lparr>Contents = None\<rparr>], delete_raises = never\<rparr>"

text \<open>
  A bucket whose only object was modified on 2024-01-01 at about nine in the morning,
  after the cutoff of a job that reads the date 2024-03-31 (day 19813) and before the
  cutoff of a job that reads 2024-04-01.
\<close>

definition recent_bucket :: s3 where
  "recent_bucket = \<lparr>pages = [Page \<lparr>Contents = Some [\<lparr>Key = ''k'', LastModified = 1704100000000000\<rparr>]\<rparr>],
                    delete_raises = never\<rparr>"

text \<open>A run over two such buckets: the job of the second one starts after midnight.\<close>

definition midnight_args :: args where
  "midnight_args = \<lparr>days = 90, dry_run = False, target_method = ''buckets'', prefix = None,
                     buckets = Some [''a'', ''b''], delete_method = ''list_then_delete''\<rparr>"

definition midnight_world :: world where
  "midnight_world = \<lparr>clock_main = 19813, list_buckets = Inr [''a'', ''b''],
                      bucket_client = (\<lambda>b. recent_bucket),
                      clock_job = (\<lambda>b. if b = ''a'' then 19813 else 19814),
                      completion = [0, 1]\<rparr>"

text \<open>A bucket whose second page request raises.\<close>

definition broken_bucket :: s3 where
  "broken_bucket = \<lparr>pages = [Page \<lparr>Contents = Some [\<lparr>Key = ''a1'', LastModified = 0\<rparr>]\<rparr>, Raises,
                             Page \<lparr>Contents = Some [\<lparr>Key = ''a2'', LastModified = 0\<rparr>]\<rparr>],
                    delete_raises = never\<rparr>"

text \<open>
  A run by prefix over four buckets, the first of them broken and the last one empty,
  and the outcomes of its jobs. The job of the broken bucket finishes last.
\<close>

definition fleet_args :: args where
  "fleet_args = \<lparr>days = 90, dry_run = False, target_method = ''prefix'', prefix = Some ''logs-'',
                  buckets = None, delete_method = ''list_then_delete''\<rparr>"

definition fleet_world :: world where
  "fleet_world = \<lparr>clock_main = 19813,
                   list_buckets = Inr [''logs-a'', ''logs-b'', ''other'', ''logs-c'', ''logs-d''],
                   bucket_client = (\<lambda>b. if b = ''logs-a'' then broken_bucket
                                        else if b = ''logs-b'' then ex_one
                                        else if b = ''logs-d'' then ex_empty else recent_bucket),
                   clock_job = (\<lambda>b. 19813),
                   completion = [1, 3, 2, 0]\<rparr>"

definition fleet_jobs :: "(string \<times> run) list" where
  "fleet_jobs =
     [(''logs-a'', (Some ListError,
         \<lparr>total = 1, to_be_deleted = [''a1''], trace = [ListObjects 1, ListObjects 2]\<rparr>)),
      (''logs-b'', (None,
         \<lparr>total = 1, to_be_deleted = [''a''], trace = [ListObjects 1, DeleteObjects [''a'']]\<rparr>)),
      (''logs-c'', (None, \<lparr>total = 0, to_be_deleted = [], trace = [ListObjects 1]\<rparr>)),
      (''logs-d'', (Some (KeyError ''Contents''),
         \<lparr>total = 0, to_be_deleted = [], trace = [ListObjects 1]\<rparr>))]"

section \<open>The inner loop and the listing loop\<close>

lemma scan_objs_eq:
  "scan_objs c objs (q, n) = (q @ eligible_keys c objs, n + length (eligible_keys c objs))"
  by (induction objs arbitrary: q n) (simp_all add: eligible_keys_def)

lemma delete_calls_of_append:
  "delete_calls_of (es @ fs) = delete_calls_of es @ delete_calls_of fs"
  by (induction es rule: delete_calls_of.induct) simp_all

lemma delete_unless_dry_cases:
  "delete_unless_dry cl dry ks s = (e, s') \<Longrightarrow>
     total s' = total s \<and> to_be_deleted s' = to_be_deleted s \<and>
     trace s' = trace s @ (if dry then [] else [DeleteObjects ks]) \<and>
     (e = None \<or> e = Some DeleteError) \<and>
     (e = Some DeleteError \<longleftrightarrow> \<not> dry \<and> delete_raises cl (length (delete_calls_of (trace s))) ks)"
  by (auto simp: delete_unless_dry_def delete_objects_def Let_def split: if_splits)

lemma after_scan_simps [simp]:
  "trace (after_scan c i objs s) = trace s @ [ListObjects i]"
  "total (after_scan c i objs s) = total s + length (eligible_keys c objs)"
  "to_be_deleted (after_scan c i objs s) = to_be_deleted s"
  by (simp_all add: after_scan_def)

lemma purge_loop_Page_None:
  "Contents p = None \<Longrightarrow>
   purge_loop cl c ltd dry i (Page p # rest) s =
     (Some (KeyError ''Contents''), s\<lparr>trace := trace s @ [ListObjects i]\<rparr>)"
  by simp

lemma purge_loop_Page_queue:
  "Contents p = Some objs \<Longrightarrow> ltd \<or> eligible_keys c objs = [] \<Longrightarrow>
   purge_loop cl c ltd dry i (Page p # rest) s =
     purge_loop cl c ltd dry (Suc i) rest
       ((after_scan c i objs s)\<lparr>to_be_deleted := to_be_deleted s @ eligible_keys c objs\<rparr>)"
  by (auto simp: scan_objs_eq after_scan_def)

lemma purge_loop_Page_delete:
  "Contents p = Some objs \<Longrightarrow> \<not> ltd \<Longrightarrow> eligible_keys c objs \<noteq> [] \<Longrightarrow>
   purge_loop cl c ltd dry i (Page p # rest) s =
     (case delete_unless_dry cl dry (eligible_keys c objs) (after_scan c i objs s) of
        (Some e, s3) \<Rightarrow> (Some e, s3)
      | (None, s3) \<Rightarrow> purge_loop cl c ltd dry (Suc i) rest s3)"
  by (auto simp: scan_objs_eq after_scan_def split: prod.splits option.splits)

declare purge_loop.simps(3) [simp del]

lemma fetch_cases:
  obtains (Raises) "f = Raises"
  | (Missing) p where "f = Page p" "Contents p = None"
  | (Listed) p objs where "f = Page p" "Contents p = Some objs"
proof (cases f)
  case (Page p)
  then show ?thesis using Missing Listed by (cases "Contents p") auto
next
  case Raises
  then show ?thesis using that(1) by simp
qed

lemma purge_loop_append:
  "purge_loop cl c ltd dry i (ps @ qs) s =
     (case purge_loop cl c ltd dry i ps s of
        (Some e, s') \<Rightarrow> (Some e, s')
      | (None, s') \<Rightarrow> purge_loop cl c ltd dry (i + length ps) qs s')"
proof (induction ps arbitrary: i s)
  case Nil
  then show ?case by simp
next
  case (Cons f ps)
  show ?case
  proof (cases f rule: fetch_cases)
    case Raises
    then show ?thesis by simp
  next
    case (Missing p)
    then show ?thesis by (simp add: purge_loop_Page_None)
  next
    case (Listed p objs)
    show ?thesis
    proof (cases "ltd \<or> eligible_keys c objs = []")
      case True
      with Listed show ?thesis
        by (simp add: purge_loop_Page_queue Cons.IH split: prod.splits option.splits)
    next
      case False
      obtain e s3 where d: "delete_unless_dry cl dry (eligible_keys c objs) (after_scan c i objs s) = (e, s3)"
        by (cases "delete_unless_dry cl dry (eligible_keys c objs) (after_scan c i objs s)")
      with Listed False Cons.IH [of "Suc i" s3] show ?thesis
        by (cases e) (simp_all add: purge_loop_Page_delete split: prod.splits option.splits)
    qed
  qed
qed

lemma purge_loop_to_be_deleted_per_page:
  "to_be_deleted (snd (purge_loop cl c False dry i fs s)) = to_be_deleted s"
proof (induction fs arbitrary: i s)
  case Nil
  then show ?case by simp
next
  case (Cons f fs)
  show ?case
  proof (cases f rule: fetch_cases)
    case Raises
    then show ?thesis by simp
  next
    case (Missing p)
    then show ?thesis by (simp add: purge_loop_Page_None)
  next
    case (Listed p objs)
    show ?thesis
    proof (cases "eligible_keys c objs = []")
      case True
      with Listed show ?thesis
        by (simp add: purge_loop_Page_queue Cons.IH)
    next
      case False
      obtain e s3 where d: "delete_unless_dry cl dry (eligible_keys c objs) (after_scan c i objs s) = (e, s3)"
        by (cases "delete_unless_dry cl dry (eligible_keys c objs) (after_scan c i objs s)")
      from delete_unless_dry_cases [OF d] have "to_be_deleted s3 = to_be_deleted s" by simp
      with Listed False d show ?thesis
        by (cases e) (simp_all add: purge_loop_Page_delete Cons.IH)
    qed
  qed
qed

lemma purge_loop_induct [case_names Nil Raises Missing Queue DeleteFails DeleteOk]:
  assumes "\<And>j t. P j [] t"
    and "\<And>j rest t. P j (Raises # rest) t"
    and "\<And>p j rest t. Contents p = None \<Longrightarrow> P j (Page p # rest) t"
    and "\<And>p objs j rest t. Contents p = Some objs \<Longrightarrow> ltd \<or> eligible_keys c objs = [] \<Longrightarrow>
           purge_loop cl c ltd dry j (Page p # rest) t =
             purge_loop cl c ltd dry (Suc j) rest
               ((after_scan c j objs t)\<lparr>to_be_deleted := to_be_deleted t @ eligible_keys c objs\<rparr>) \<Longrightarrow>
           P (Suc j) rest ((after_scan c j objs t)\<lparr>to_be_deleted := to_be_deleted t @ eligible_keys c objs\<rparr>) \<Longrightarrow>
           P j (Page p # rest) t"
    and "\<And>p objs j rest t err t3. Contents p = Some objs \<Longrightarrow> \<not> ltd \<Longrightarrow> eligible_keys c objs \<noteq> [] \<Longrightarrow>
           delete_unless_dry cl dry (eligible_keys c objs) (after_scan c j objs t) = (Some err, t3) \<Longrightarrow>
           purge_loop cl c ltd dry j (Page p # rest) t = (Some err, t3) \<Longrightarrow>
           P j (Page p # rest) t"
    and "\<And>p objs j rest t t3. Contents p = Some objs \<Longrightarrow> \<not> ltd \<Longrightarrow> eligible_keys c objs \<noteq> [] \<Longrightarrow>
           delete_unless_dry cl dry (eligible_keys c objs) (after_scan c j objs t) = (None, t3) \<Longrightarrow>
           purge_loop cl c ltd dry j (Page p # rest) t = purge_loop cl c ltd dry (Suc j) rest t3 \<Longrightarrow>
           P (Suc j) rest t3 \<Longrightarrow>
           P j (Page p # rest) t"
  shows "P i fs s"
proof (induction fs arbitrary: i s)
  case (Nil i s)
  show ?case by (rule assms(1))
next
  case (Cons f fs i s)
  show ?case
  proof (cases f rule: fetch_cases)
    case Raises
    then show ?thesis by (simp add: assms(2))
  next
    case (Missing p)
    then show ?thesis by (simp add: assms(3))
  next
    case (Listed p objs)
    show ?thesis
    proof (cases "ltd \<or> eligible_keys c objs = []")
      case True
      have eq: "purge_loop cl c ltd dry i (Page p # fs) s =
                  purge_loop cl c ltd dry (Suc i) fs
                    ((after_scan c i objs s)\<lparr>to_be_deleted := to_be_deleted s @ eligible_keys c objs\<rparr>)"
        by (rule purge_loop_Page_queue [OF Listed(2) True])
      show ?thesis unfolding Listed(1)
        by (rule assms(4) [OF Listed(2) True eq Cons.IH])
    next
      case False
      obtain e s3 where d: "delete_unless_dry cl dry (eligible_keys c objs) (after_scan c i objs s) = (e, s3)"
        by (cases "delete_unless_dry cl dry (eligible_keys c objs) (after_scan c i objs s)")
      show ?thesis
      proof (cases e)
        case None
        from False have f1: "\<not> ltd" and f2: "eligible_keys c objs \<noteq> []" by simp_all
        from d None have d': "delete_unless_dry cl dry (eligible_keys c objs) (after_scan c i objs s) = (None, s3)"
          by simp
        have eq: "purge_loop cl c ltd dry i (Page p # fs) s = purge_loop cl c ltd dry (Suc i) fs s3"
          by (simp add: purge_loop_Page_delete [OF Listed(2) f1 f2] d')
        show ?thesis unfolding Listed(1)
          by (rule assms(6) [OF Listed(2) f1 f2 d' eq Cons.IH])
      next
        case (Some e')
        from False have f1: "\<not> ltd" and f2: "eligible_keys c objs \<noteq> []" by simp_all
        from d Some have d': "delete_unless_dry cl dry (eligible_keys c objs) (after_scan c i objs s) = (Some e', s3)"
          by simp
        have eq: "purge_loop cl c ltd dry i (Page p # fs) s = (Some e', s3)"
          by (simp add: purge_loop_Page_delete [OF Listed(2) f1 f2] d')
        show ?thesis unfolding Listed(1)
          by (rule assms(5) [OF Listed(2) f1 f2 d' eq])
      qed
    qed
  qed
qed

lemma delete_calls_of_listing_trace:
  "delete_calls_of (listing_trace del c i fs) = (if del then per_page_calls c fs else [])"
  by (induction fs arbitrary: i) (simp_all add: per_page_calls_def delete_calls_of_append)

lemma purge_loop_success:
  assumes "fst (purge_loop cl c ltd dry i fs s) = None"
  shows "list_all fetch_ok fs
       \<and> total (snd (purge_loop cl c ltd dry i fs s)) = total s + length (all_eligible_keys c fs)
       \<and> to_be_deleted (snd (purge_loop cl c ltd dry i fs s))
           = to_be_deleted s @ (if ltd then all_eligible_keys c fs else [])
       \<and> trace (snd (purge_loop cl c ltd dry i fs s))
           = trace s @ listing_trace (\<not> ltd \<and> \<not> dry) c i fs"
  using assms
proof (induction i fs s rule: purge_loop_induct [where cl = cl and c = c and ltd = ltd and dry = dry])
  case (Nil i s)
  then show ?case by (simp add: all_eligible_keys_def)
next
  case (Raises i rest s)
  then show ?case by simp
next
  case (Missing p i rest s)
  then show ?case by (simp add: purge_loop_Page_None)
next
  case (Queue p objs i rest s)
  then show ?case by (auto simp: all_eligible_keys_def)
next
  case (DeleteFails p objs i rest s e s3)
  then show ?case by simp
next
  case (DeleteOk p objs i rest s s3)
  from delete_unless_dry_cases [OF DeleteOk(4)] DeleteOk show ?case
    by (auto simp: all_eligible_keys_def)
qed

lemma purge_loop_calls:
  "\<exists>n. delete_calls_of (trace (snd (purge_loop cl c ltd dry i fs s)))
        = delete_calls_of (trace s) @ take n (if ltd \<or> dry then [] else per_page_calls c fs)"
proof (induction i fs s rule: purge_loop_induct [where cl = cl and c = c and ltd = ltd and dry = dry])
  case (Nil i s)
  then show ?case by simp
next
  case (Raises i rest s)
  then show ?case by (simp add: delete_calls_of_append)
next
  case (Missing p i rest s)
  then show ?case by (simp add: purge_loop_Page_None delete_calls_of_append)
next
  case (Queue p objs i rest s)
  then obtain n where n: "delete_calls_of (trace (snd (purge_loop cl c ltd dry i (Page p # rest) s)))
        = delete_calls_of (trace s) @ take n (if ltd \<or> dry then [] else per_page_calls c rest)"
    by (auto simp: delete_calls_of_append)
  show ?case
  proof (cases "ltd \<or> dry")
    case True
    with n show ?thesis by simp
  next
    case False
    with Queue(1,2) have "per_page_calls c (Page p # rest) = per_page_calls c rest"
      by (simp add: per_page_calls_def)
    with n show ?thesis by auto
  qed
next
  case (DeleteFails p objs i rest s e s3)
  from delete_unless_dry_cases [OF DeleteFails(4)]
  have "\<not> dry" and "trace s3 = trace s @ [ListObjects i, DeleteObjects (eligible_keys c objs)]"
    by auto
  with DeleteFails have "delete_calls_of (trace (snd (purge_loop cl c ltd dry i (Page p # rest) s)))
        = delete_calls_of (trace s) @ take 1 (if ltd \<or> dry then [] else per_page_calls c (Page p # rest))"
    by (simp add: delete_calls_of_append per_page_calls_def)
  then show ?case by blast
next
  case (DeleteOk p objs i rest s s3)
  then obtain n where n: "delete_calls_of (trace (snd (purge_loop cl c ltd dry i (Page p # rest) s)))
        = delete_calls_of (trace s3) @ take n (if ltd \<or> dry then [] else per_page_calls c rest)"
    by auto
  from delete_unless_dry_cases [OF DeleteOk(4)]
  have t3: "trace s3 = trace s @ ListObjects i # (if dry then [] else [DeleteObjects (eligible_keys c objs)])"
    by auto
  show ?case
  proof (cases dry)
    case True
    with n t3 show ?thesis by (simp add: delete_calls_of_append)
  next
    case False
    with DeleteOk(1,2,3) have "per_page_calls c (Page p # rest) = eligible_keys c objs # per_page_calls c rest"
      by (simp add: per_page_calls_def)
    with n t3 False DeleteOk(2)
    have "delete_calls_of (trace (snd (purge_loop cl c ltd dry i (Page p # rest) s)))
        = delete_calls_of (trace s) @ take (Suc n) (if ltd \<or> dry then [] else per_page_calls c (Page p # rest))"
      by (simp add: delete_calls_of_append)
    then show ?thesis by blast
  qed
qed

lemma purge_loop_completes:
  assumes "list_all fetch_ok fs" and "ltd \<or> dry \<or> (\<forall>n ks. \<not> delete_raises cl n ks)"
  shows "fst (purge_loop cl c ltd dry i fs s) = None"
  using assms(1)
proof (induction i fs s rule: purge_loop_induct [where cl = cl and c = c and ltd = ltd and dry = dry])
  case (Nil i s)
  then show ?case by simp
next
  case (Raises i rest s)
  then show ?case by simp
next
  case (Missing p i rest s)
  then show ?case by simp
next
  case (Queue p objs i rest s)
  then show ?case by simp
next
  case (DeleteFails p objs i rest s e s3)
  from delete_unless_dry_cases [OF DeleteFails(4)] DeleteFails(2) assms(2)
  show ?case by auto
next
  case (DeleteOk p objs i rest s s3)
  then show ?case by simp
qed

section \<open>Chunking\<close>

lemma chunks_Nil: "chunks [] = []"
  by (simp add: chunks_def range_step_def)

lemma ceil_div_Suc:
  "0 < n \<Longrightarrow> (n + 999) div 1000 = Suc ((n - 1000 + 999) div 1000)" for n :: nat
proof (cases "n \<le> 1000")
  case True
  assume "0 < n"
  with True have "(n + 999) div 1000 = 1" by (simp add: div_nat_eqI)
  with True show ?thesis by simp
next
  case False
  then have "n + 999 = (n - 1000 + 999) + 1000" by simp
  then show ?thesis by (simp only: div_add_self2)
qed

lemma range_step_Suc:
  assumes "0 < n"
  shows "range_step n 1000 = 0 # map (\<lambda>i. i + 1000) (range_step (n - 1000) 1000)"
proof -
  have "n + 1000 - 1 = n + 999" and "n - 1000 + 1000 - 1 = n - 1000 + 999"
    by simp_all
  then have d: "(n + 1000 - 1) div 1000 = Suc ((n - 1000 + 1000 - 1) div 1000)"
    by (simp only: ceil_div_Suc [OF assms])
  have u: "[0..<Suc m] = 0 # map Suc [0..<m]" for m
    by (simp add: upt_conv_Cons map_Suc_upt del: upt_Suc)
  show ?thesis
    unfolding range_step_def d u by (simp add: comp_def)
qed

lemma chunks_Cons:
  assumes "xs \<noteq> []"
  shows "chunks xs = take 1000 xs # chunks (drop 1000 xs)"
proof -
  from assms have "0 < length xs" by simp
  from range_step_Suc [OF this] show ?thesis
    by (simp add: chunks_def slice_def comp_def add.commute)
qed

lemma chunks_props:
  "concat (chunks xs) = xs
   \<and> length (chunks xs) = (length xs + 999) div 1000
   \<and> (\<forall>ch \<in> set (chunks xs). ch \<noteq> [] \<and> length ch \<le> 1000)"
proof (induction xs rule: length_induct)
  case (1 xs)
  show ?case
  proof (cases "xs = []")
    case True
    then show ?thesis by (simp add: chunks_Nil)
  next
    case False
    then have "length (drop 1000 xs) < length xs" by simp
    with 1 have ih: "concat (chunks (drop 1000 xs)) = drop 1000 xs"
      "length (chunks (drop 1000 xs)) = (length (drop 1000 xs) + 999) div 1000"
      "\<forall>ch \<in> set (chunks (drop 1000 xs)). ch \<noteq> [] \<and> length ch \<le> 1000"
      by blast+
    from False have "0 < length xs" by simp
    then have d: "(length xs + 999) div 1000 = Suc ((length xs - 1000 + 999) div 1000)"
      by (rule ceil_div_Suc)
    have c: "chunks xs = take 1000 xs # chunks (drop 1000 xs)"
      by (rule chunks_Cons [OF False])
    have "concat (chunks xs) = xs"
      by (simp only: c concat.simps ih(1) append_take_drop_id)
    moreover have "length (chunks xs) = (length xs + 999) div 1000"
      by (simp only: c d ih(2) list.size length_drop)
    moreover have "\<forall>ch \<in> set (chunks xs). ch \<noteq> [] \<and> length ch \<le> 1000"
      unfolding c using ih(3) False by simp
    ultimately show ?thesis by blast
  qed
qed

section \<open>The chunk loop and the whole of purge\<close>

lemma delete_chunks_state:
  "total (snd (delete_chunks cl dry cs s)) = total s
   \<and> to_be_deleted (snd (delete_chunks cl dry cs s)) = to_be_deleted s"
proof (induction cs arbitrary: s)
  case Nil
  then show ?case by simp
next
  case (Cons ch cs)
  obtain e s' where d: "delete_unless_dry cl dry ch s = (e, s')"
    by (cases "delete_unless_dry cl dry ch s")
  from delete_unless_dry_cases [OF d] Cons [of s'] d show ?case
    by (cases e) simp_all
qed

lemma delete_chunks_success:
  "fst (delete_chunks cl dry cs s) = None \<Longrightarrow>
   trace (snd (delete_chunks cl dry cs s)) = trace s @ (if dry then [] else map DeleteObjects cs)"
proof (induction cs arbitrary: s)
  case Nil
  then show ?case by simp
next
  case (Cons ch cs)
  obtain e s' where d: "delete_unless_dry cl dry ch s = (e, s')"
    by (cases "delete_unless_dry cl dry ch s")
  from delete_unless_dry_cases [OF d] Cons.IH [of s'] Cons.prems d show ?case
    by (cases e) simp_all
qed

lemma delete_calls_of_map_DeleteObjects:
  "delete_calls_of (map DeleteObjects cs) = cs"
  by (induction cs) simp_all

lemma delete_chunks_calls:
  "\<exists>n. delete_calls_of (trace (snd (delete_chunks cl dry cs s)))
        = delete_calls_of (trace s) @ take n (if dry then [] else cs)"
proof (induction cs arbitrary: s)
  case Nil
  then show ?case by simp
next
  case (Cons ch cs)
  obtain e s' where d: "delete_unless_dry cl dry ch s = (e, s')"
    by (cases "delete_unless_dry cl dry ch s")
  note u = delete_unless_dry_cases [OF d]
  show ?case
  proof (cases e)
    case None
    from Cons.IH [of s'] obtain n where
      n: "delete_calls_of (trace (snd (delete_chunks cl dry cs s')))
            = delete_calls_of (trace s') @ take n (if dry then [] else cs)" ..
    with u d None have "delete_calls_of (trace (snd (delete_chunks cl dry (ch # cs) s)))
        = delete_calls_of (trace s) @ take (Suc n) (if dry then [] else ch # cs)"
      by (simp add: delete_calls_of_append)
    then show ?thesis ..
  next
    case (Some e')
    with u d have "delete_calls_of (trace (snd (delete_chunks cl dry (ch # cs) s)))
        = delete_calls_of (trace s) @ take 1 (if dry then [] else ch # cs)"
      by (auto simp: delete_calls_of_append)
    then show ?thesis ..
  qed
qed

lemma delete_chunks_completes:
  assumes "dry \<or> (\<forall>n ks. \<not> delete_raises cl n ks)"
  shows "fst (delete_chunks cl dry cs s) = None"
proof (induction cs arbitrary: s)
  case Nil
  then show ?case by simp
next
  case (Cons ch cs)
  obtain e s' where d: "delete_unless_dry cl dry ch s = (e, s')"
    by (cases "delete_unless_dry cl dry ch s")
  from delete_unless_dry_cases [OF d] assms have "e = None" by auto
  with d Cons [of s'] show ?case by simp
qed

lemma purge_success:
  assumes c: "compute_cutoff today md = Inr c"
    and ok: "fst (purge cl today md ltd dry) = None"
  shows "list_all fetch_ok (pages cl)
       \<and> total (snd (purge cl today md ltd dry)) = length (all_eligible_keys c (pages cl))
       \<and> trace (snd (purge cl today md ltd dry))
           = listing_trace (\<not> ltd \<and> \<not> dry) c 1 (pages cl)
             @ (if ltd \<and> \<not> dry then map DeleteObjects (chunks (all_eligible_keys c (pages cl))) else [])"
proof -
  obtain e s where l: "purge_loop cl c ltd dry 1 (pages cl) init_state = (e, s)"
    by (cases "purge_loop cl c ltd dry 1 (pages cl) init_state")
  from ok c l have e: "e = None"
    by (cases e) (simp_all add: purge_def)
  from purge_loop_success [of cl c ltd dry 1 "pages cl" init_state] l e
  have ls: "list_all fetch_ok (pages cl)"
    "total s = length (all_eligible_keys c (pages cl))"
    "to_be_deleted s = (if ltd then all_eligible_keys c (pages cl) else [])"
    "trace s = listing_trace (\<not> ltd \<and> \<not> dry) c 1 (pages cl)"
    by (simp_all add: init_state_def)
  show ?thesis
  proof (cases "to_be_deleted s = []")
    case True
    with c l e have p: "purge cl today md ltd dry = (None, s)"
      by (simp add: purge_def)
    from True ls(3) have "ltd \<longrightarrow> chunks (all_eligible_keys c (pages cl)) = []"
      by (cases ltd) (simp_all add: chunks_Nil)
    with p ls show ?thesis by simp
  next
    case False
    with c l e have p: "purge cl today md ltd dry = delete_chunks cl dry (chunks (to_be_deleted s)) s"
      by (simp add: purge_def)
    from False ls(3) have ltd: ltd by (cases ltd) simp_all
    from ok p have "fst (delete_chunks cl dry (chunks (to_be_deleted s)) s) = None" by simp
    from delete_chunks_success [OF this] delete_chunks_state [of cl dry "chunks (to_be_deleted s)" s]
      p ls ltd show ?thesis by simp
  qed
qed

lemma purge_completes:
  assumes c: "compute_cutoff today md = Inr c"
    and ok: "list_all fetch_ok (pages cl)"
    and nr: "dry \<or> (\<forall>n ks. \<not> delete_raises cl n ks)"
  shows "fst (purge cl today md ltd dry) = None"
proof -
  obtain e s where l: "purge_loop cl c ltd dry 1 (pages cl) init_state = (e, s)"
    by (cases "purge_loop cl c ltd dry 1 (pages cl) init_state")
  from nr have "ltd \<or> dry \<or> (\<forall>n ks. \<not> delete_raises cl n ks)" by blast
  from purge_loop_completes [OF ok this, of c 1 init_state] l have e: "e = None" by simp
  with c l delete_chunks_completes [OF nr, of "chunks (to_be_deleted s)" s] show ?thesis
    by (simp add: purge_def)
qed

lemma purge_calls:
  assumes c: "compute_cutoff today md = Inr c"
  shows "\<exists>n. delete_calls (purge cl today md ltd dry)
           = take n (if dry then [] else planned_calls ltd c (pages cl))"
proof -
  obtain e s where l: "purge_loop cl c ltd dry 1 (pages cl) init_state = (e, s)"
    by (cases "purge_loop cl c ltd dry 1 (pages cl) init_state")
  from purge_loop_calls [of cl c ltd dry 1 "pages cl" init_state] l obtain n where
    n: "delete_calls_of (trace s) = take n (if ltd \<or> dry then [] else per_page_calls c (pages cl))"
    by (auto simp: init_state_def)
  show ?thesis
  proof (cases e)
    case (Some e')
    with c l have p: "purge cl today md ltd dry = (Some e', s)" by (simp add: purge_def)
    show ?thesis
    proof (cases "ltd \<or> dry")
      case True
      with n p have "delete_calls (purge cl today md ltd dry)
           = take 0 (if dry then [] else planned_calls ltd c (pages cl))"
        by (simp add: delete_calls_def)
      then show ?thesis ..
    next
      case False
      with n p have "delete_calls (purge cl today md ltd dry)
           = take n (if dry then [] else planned_calls ltd c (pages cl))"
        by (simp add: delete_calls_def planned_calls_def)
      then show ?thesis ..
    qed
  next
    case None
    from purge_loop_success [of cl c ltd dry 1 "pages cl" init_state] l None
    have tbd: "to_be_deleted s = (if ltd then all_eligible_keys c (pages cl) else [])"
      and tr: "trace s = listing_trace (\<not> ltd \<and> \<not> dry) c 1 (pages cl)"
      by (simp_all add: init_state_def)
    show ?thesis
    proof (cases ltd)
      case False
      with tbd c l None have p: "purge cl today md ltd dry = (None, s)" by (simp add: purge_def)
      with tr False have "delete_calls (purge cl today md ltd dry)
           = take (length (per_page_calls c (pages cl))) (if dry then [] else planned_calls ltd c (pages cl))"
        by (simp add: delete_calls_def planned_calls_def delete_calls_of_listing_trace)
      then show ?thesis ..
    next
      case True
      with tr have t0: "delete_calls_of (trace s) = []"
        by (simp add: delete_calls_of_listing_trace)
      have p: "delete_calls (purge cl today md ltd dry)
                 = delete_calls_of (trace (snd (delete_chunks cl dry (chunks (to_be_deleted s)) s)))"
        using c l None by (simp add: purge_def delete_calls_def chunks_Nil)
      from delete_chunks_calls [of cl dry "chunks (to_be_deleted s)" s] obtain m where
        "delete_calls_of (trace (snd (delete_chunks cl dry (chunks (to_be_deleted s)) s)))
           = delete_calls_of (trace s) @ take m (if dry then [] else chunks (to_be_deleted s))" ..
      with p t0 tbd True have "delete_calls (purge cl today md ltd dry)
           = take m (if dry then [] else planned_calls ltd c (pages cl))"
        by (simp add: planned_calls_def)
      then show ?thesis ..
    qed
  qed
qed

section \<open>The retention filter\<close>

text \<open>
  C1. For every page and every cutoff, the inner loop marks exactly the objects whose
  LastModified is at or before the cutoff: the keys it queues are the keys of those
  objects, in page order, and the total grows by their number. An object at any place
  in a page is queued if and only if its LastModified is at or before the cutoff,
  whatever the other objects of the page are. With the cutoff at 2024-01-01T00:00:00Z
  (day 19723 of the epoch), an object modified at exactly that instant is queued, and
  one modified a millisecond (1000 microseconds) later is not.
\<close>

theorem retention_filter_boundary:
  "scan_objs c objs (q, n)
     = (q @ map Key (filter (\<lambda>r. LastModified r \<le> c) objs),
        n + length (filter (\<lambda>r. LastModified r \<le> c) objs))
   \<and> set (fst (scan_objs c objs ([], n))) = Key ` {r \<in> set objs. LastModified r \<le> c}
   \<and> scan_objs c (pre @ r # post) (q, n)
     = (q @ map Key (filter (\<lambda>r. LastModified r \<le> c) pre)
          @ (if LastModified r \<le> c then [Key r] else [])
          @ map Key (filter (\<lambda>r. LastModified r \<le> c) post),
        n + length (filter (\<lambda>r. LastModified r \<le> c) pre)
          + (if LastModified r \<le> c then 1 else 0)
          + length (filter (\<lambda>r. LastModified r \<le> c) post))
   \<and> ((scan_objs c [r] (q, n) = (q @ [Key r], n + 1)) = (LastModified r \<le> c))
   \<and> ((scan_objs c [r] (q, n) = (q, n)) = (\<not> LastModified r \<le> c))
   \<and> scan_objs (19723 * usec_per_day)
         [\<lparr>Key = k, LastModified = 19723 * usec_per_day\<rparr>] ([], 0) = ([k], 1)
   \<and> scan_objs (19723 * usec_per_day)
         [\<lparr>Key = k, LastModified = 19723 * usec_per_day + 1000\<rparr>] ([], 0) = ([], 0)"
proof -
  have 1: "scan_objs c objs (q, n)
     = (q @ map Key (filter (\<lambda>r. LastModified r \<le> c) objs),
        n + length (filter (\<lambda>r. LastModified r \<le> c) objs))" for objs q n
    by (simp add: scan_objs_eq eligible_keys_def)
  have 2: "set (fst (scan_objs c objs ([], n))) = Key ` {r \<in> set objs. LastModified r \<le> c}"
    by (auto simp: 1)
  have 3: "scan_objs c (pre @ r # post) (q, n)
     = (q @ map Key (filter (\<lambda>r. LastModified r \<le> c) pre)
          @ (if LastModified r \<le> c then [Key r] else [])
          @ map Key (filter (\<lambda>r. LastModified r \<le> c) post),
        n + length (filter (\<lambda>r. LastModified r \<le> c) pre)
          + (if LastModified r \<le> c then 1 else 0)
          + length (filter (\<lambda>r. LastModified r \<le> c) post))"
    by (simp add: 1)
  have 4: "((scan_objs c [r] (q, n) = (q @ [Key r], n + 1)) = (LastModified r \<le> c))
   \<and> ((scan_objs c [r] (q, n) = (q, n)) = (\<not> LastModified r \<le> c))
   \<and> scan_objs (19723 * usec_per_day)
         [\<lparr>Key = k, LastModified = 19723 * usec_per_day\<rparr>] ([], 0) = ([k], 1)
   \<and> scan_objs (19723 * usec_per_day)
         [\<lparr>Key = k, LastModified = 19723 * usec_per_day + 1000\<rparr>] ([], 0) = ([], 0)"
    by simp
  from 1 [of objs q n] 2 3 4 show ?thesis by (simp only:) 
qed

theorem retention_filter_boundary_witness:
  "scan_objs 1704067200000000
     [\<lparr>Key = ''a'', LastModified = 0\<rparr>,
      \<lparr>Key = ''x'', LastModified = 1704067200001000\<rparr>,
      \<lparr>Key = ''b'', LastModified = 1704067200000000\<rparr>,
      \<lparr>Key = ''y'', LastModified = 1704067200000001\<rparr>] ([], 0)
     = ([''a'', ''b''], 2)"
proof -
  from retention_filter_boundary
    [of 1704067200000000
        "[\<lparr>Key = ''a'', LastModified = 0\<rparr>,
          \<lparr>Key = ''x'', LastModified = 1704067200001000\<rparr>,
          \<lparr>Key = ''b'', LastModified = 1704067200000000\<rparr>,
          \<lparr>Key = ''y'', LastModified = 1704067200000001\<rparr>]" "[]" 0]
  have "scan_objs 1704067200000000
     [\<lparr>Key = ''a'', LastModified = 0\<rparr>,
      \<lparr>Key = ''x'', LastModified = 1704067200001000\<rparr>,
      \<lparr>Key = ''b'', LastModified = 1704067200000000\<rparr>,
      \<lparr>Key = ''y'', LastModified = 1704067200000001\<rparr>] ([], 0)
     = ([] @ map Key (filter (\<lambda>r. LastModified r \<le> 1704067200000000)
          [\<lparr>Key = ''a'', LastModified = 0\<rparr>,
           \<lparr>Key = ''x'', LastModified = 1704067200001000\<rparr>,
           \<lparr>Key = ''b'', LastModified = 1704067200000000\<rparr>,
           \<lparr>Key = ''y'', LastModified = 1704067200000001\<rparr>]),
        0 + length (filter (\<lambda>r. LastModified r \<le> 1704067200000000)
          [\<lparr>Key = ''a'', LastModified = 0\<rparr>,
           \<lparr>Key = ''x'', LastModified = 1704067200001000\<rparr>,
           \<lparr>Key = ''b'', LastModified = 1704067200000000\<rparr>,
           \<lparr>Key = ''y'', LastModified = 1704067200000001\<rparr>]))"
    by (rule conjunct1)
  also have "\<dots> = ([''a'', ''b''], 2)" by simp
  finally show ?thesis .
qed

section \<open>GLOBAL_CHUNKED\<close>

lemma eligible_keys_old_objs:
  "0 \<le> c \<Longrightarrow> eligible_keys c (old_objs a b) = map ex_key [a..<b]"
  by (simp add: eligible_keys_def old_objs_def filter_map comp_def)

lemma listing_trace_no_delete:
  "listing_trace False c i fs = map ListObjects [i..<i + length fs]"
proof (induction fs arbitrary: i)
  case Nil
  then show ?case by simp
next
  case (Cons f fs)
  have "i < i + length (f # fs)" by simp
  then have "[i..<i + length (f # fs)] = i # [Suc i..<i + length (f # fs)]"
    by (rule upt_conv_Cons)
  moreover have "i + length (f # fs) = Suc i + length fs" by simp
  ultimately have "[i..<i + length (f # fs)] = i # [Suc i..<Suc i + length fs]"
    by (simp only:)
  with Cons [of "Suc i"] show ?case by (simp del: upt_Suc)
qed

lemma chunks_2500:
  assumes "length xs = 2500"
  shows "map length (chunks xs) = [1000, 1000, 500]"
proof -
  from assms have 1: "xs \<noteq> []" by auto
  from assms have 2: "drop 1000 xs \<noteq> []" by simp
  from assms have 3: "drop 1000 (drop 1000 xs) \<noteq> []" by simp
  from assms have 4: "drop 1000 (drop 1000 (drop 1000 xs)) = []" by simp
  show ?thesis
    unfolding chunks_Cons [OF 1] chunks_Cons [OF 2] chunks_Cons [OF 3] 4 chunks_Nil
    using assms by simp
qed

text \<open>
  C3. Under GLOBAL_CHUNKED (\<open>list_then_delete\<close>), when the listing runs to its end and
  no delete request raises, purge issues exactly \<open>ceil(K/1000)\<close> delete requests for
  the \<open>K\<close> eligible keys, all of them after the last page request, each with at most
  1000 keys; concatenated, they are the eligible keys in the order of discovery, so every
  key is covered once. The total reported is \<open>K\<close>. With 2500 eligible objects the
  requests have the sizes 1000, 1000, 500.
\<close>

theorem global_chunked_delete_calls:
  assumes "compute_cutoff today max_days = Inr c"
    and "list_all fetch_ok (pages client)"
    and "\<forall>n ks. \<not> delete_raises client n ks"
  shows "length (delete_calls (purge client today max_days True False))
           = (length (all_eligible_keys c (pages client)) + 999) div 1000
       \<and> (\<forall>ks \<in> set (delete_calls (purge client today max_days True False)). length ks \<le> 1000)
       \<and> concat (delete_calls (purge client today max_days True False))
           = all_eligible_keys c (pages client)
       \<and> trace (snd (purge client today max_days True False))
           = map ListObjects [1..<Suc (length (pages client))]
             @ map DeleteObjects (delete_calls (purge client today max_days True False))
       \<and> reported (purge client today max_days True False)
           = Some (length (all_eligible_keys c (pages client)))
       \<and> (length (all_eligible_keys c (pages client)) = 2500 \<longrightarrow>
            map length (delete_calls (purge client today max_days True False)) = [1000, 1000, 500])"
proof -
  let ?r = "purge client today max_days True False"
  let ?ks = "all_eligible_keys c (pages client)"
  from assms(3) have "False \<or> (\<forall>n ks. \<not> delete_raises client n ks)" by simp
  from purge_completes [OF assms(1,2) this] have ok: "fst ?r = None" .
  from purge_success [OF assms(1) ok]
  have tot: "total (snd ?r) = length ?ks"
    and tr: "trace (snd ?r) = listing_trace False c 1 (pages client) @ map DeleteObjects (chunks ?ks)"
    by simp_all
  from tr have calls: "delete_calls ?r = chunks ?ks"
    by (simp add: delete_calls_def delete_calls_of_append delete_calls_of_listing_trace
          delete_calls_of_map_DeleteObjects)
  from tr have tr': "trace (snd ?r)
      = map ListObjects [1..<Suc (length (pages client))] @ map DeleteObjects (delete_calls ?r)"
    by (simp add: calls listing_trace_no_delete)
  from ok tot have rep: "reported ?r = Some (length ?ks)"
    by (simp add: reported_def)
  from chunks_props [of ?ks] chunks_2500 [of ?ks] calls tr' rep show ?thesis
    by (simp only:) blast
qed

theorem global_chunked_delete_calls_witness:
  "map length (delete_calls (purge ex_2500 19813 90 True False)) = [1000, 1000, 500]
   \<and> reported (purge ex_2500 19813 90 True False) = Some 2500"
proof -
  have c: "compute_cutoff 19813 90 = Inr (19723 * usec_per_day)"
    by (simp add: compute_cutoff_def date_min_def date_max_def)
  have ok: "list_all fetch_ok (pages ex_2500)"
    by (simp add: ex_2500_def)
  have nr: "\<forall>n ks. \<not> delete_raises ex_2500 n ks"
    by (simp add: ex_2500_def never_def)
  have "(0::int) \<le> 19723 * usec_per_day"
    by (simp add: usec_per_day_def)
  then have k: "length (all_eligible_keys (19723 * usec_per_day) (pages ex_2500)) = 2500"
    by (simp add: ex_2500_def all_eligible_keys_def eligible_keys_old_objs)
  from global_chunked_delete_calls [OF c ok nr] k show ?thesis by simp
qed

section \<open>Runs on the examples, and counting\<close>

lemma cutoff_2024: "compute_cutoff 19813 90 = Inr 1704067200000000"
  by (simp add: compute_cutoff_def date_min_def date_max_def usec_per_day_def)

lemma ex_203_ok: "list_all fetch_ok (pages ex_203)" "\<forall>n ks. \<not> delete_raises ex_203 n ks"
  by (simp_all add: ex_203_def never_def)

lemma ex_203_keys:
  "map (\<lambda>f. eligible_keys 1704067200000000 (objs_of f)) (pages ex_203)
     = [[''a'', ''b''], [], [''c'', ''d'', ''e'']]"
  by (simp add: ex_203_def eligible_keys_def)

lemma length_all_eligible_keys:
  "length (all_eligible_keys c fs) = sum_list (map (\<lambda>f. length (eligible_keys c (objs_of f))) fs)"
  by (simp add: all_eligible_keys_def length_concat comp_def)

lemma length_per_page_calls:
  "length (per_page_calls c fs)
     = length (filter (\<lambda>n. n \<noteq> 0) (map (\<lambda>f. length (eligible_keys c (objs_of f))) fs))"
  by (induction fs) (simp_all add: per_page_calls_def)

lemma concat_per_page_calls: "concat (per_page_calls c fs) = all_eligible_keys c fs"
  by (induction fs) (simp_all add: per_page_calls_def all_eligible_keys_def)

lemma purge_overflow:
  "compute_cutoff today md = Inl e \<Longrightarrow> purge cl today md ltd dry = (Some e, init_state)"
  by (simp add: purge_def)

lemma purge_reported:
  assumes "compute_cutoff today md = Inr c"
  shows "reported (purge cl today md ltd dry) = Some n \<longleftrightarrow>
           fst (purge cl today md ltd dry) = None \<and> n = length (all_eligible_keys c (pages cl))"
proof (cases "fst (purge cl today md ltd dry)")
  case None
  from purge_success [OF assms None] None show ?thesis
    by (auto simp: reported_def)
next
  case (Some e)
  then show ?thesis by (simp add: reported_def)
qed

lemma purge_fails_on_bad_listing:
  assumes "compute_cutoff today md = Inr c" and "\<not> list_all fetch_ok (pages cl)"
  shows "reported (purge cl today md ltd dry) = None"
proof (cases "fst (purge cl today md ltd dry)")
  case None
  from purge_success [OF assms(1) None] assms(2) show ?thesis by simp
next
  case (Some e)
  then show ?thesis by (simp add: reported_def)
qed

lemma purge_reported_complete:
  assumes "compute_cutoff today md = Inr c" and "list_all fetch_ok (pages cl)"
    and "dry \<or> (\<forall>n ks. \<not> delete_raises cl n ks)"
  shows "reported (purge cl today md ltd dry) = Some (length (all_eligible_keys c (pages cl)))"
  using purge_completes [OF assms] by (simp add: purge_reported [OF assms(1)])

lemma count_list_concat_take:
  "count_list (concat (take n xss)) k \<le> count_list (concat xss) k"
proof (induction xss arbitrary: n)
  case Nil
  then show ?case by simp
next
  case (Cons xs xss)
  then show ?case by (cases n) simp_all
qed

lemma purge_to_be_deleted_per_page:
  "to_be_deleted (snd (purge cl today md False dry)) = []"
proof (cases "compute_cutoff today md")
  case (Inl e)
  then show ?thesis by (simp add: purge_def init_state_def)
next
  case (Inr c)
  obtain e s where l: "purge_loop cl c False dry 1 (pages cl) init_state = (e, s)"
    by (cases "purge_loop cl c False dry 1 (pages cl) init_state")
  from purge_loop_to_be_deleted_per_page [of cl c dry 1 "pages cl" init_state] l
  have "to_be_deleted s = []" by (simp add: init_state_def)
  with Inr l show ?thesis by (cases e) (simp_all add: purge_def)
qed

section \<open>PER_PAGE\<close>

text \<open>
  C4. Under PER_PAGE (\<open>delete_every_page\<close>, not a dry run), when the listing runs to its
  end and no delete request raises, the requests of purge are, page after page, the page
  request followed at once, before the next page request, by one delete request with the
  eligible keys of that page when there are any, and by none otherwise. The delete
  requests are the non-empty per-page key lists, and the total reported is the sum of
  the per-page counts. With pages of 2, 0 and 3 eligible objects there are 2 delete
  requests and the total is 5.
\<close>

theorem per_page_delete_calls:
  assumes "compute_cutoff today max_days = Inr c"
    and "list_all fetch_ok (pages client)"
    and "\<forall>n ks. \<not> delete_raises client n ks"
  shows "trace (snd (purge client today max_days False False)) = listing_trace True c 1 (pages client)
       \<and> delete_calls (purge client today max_days False False)
           = filter (\<lambda>ks. ks \<noteq> []) (map (\<lambda>f. eligible_keys c (objs_of f)) (pages client))
       \<and> reported (purge client today max_days False False)
           = Some (sum_list (map (\<lambda>f. length (eligible_keys c (objs_of f))) (pages client)))
       \<and> (map (\<lambda>f. length (eligible_keys c (objs_of f))) (pages client) = [2, 0, 3] \<longrightarrow>
            length (delete_calls (purge client today max_days False False)) = 2
            \<and> reported (purge client today max_days False False) = Some 5)"
proof -
  let ?r = "purge client today max_days False False"
  from assms(3) have "False \<or> (\<forall>n ks. \<not> delete_raises client n ks)" by simp
  from purge_completes [OF assms(1,2) this] have ok: "fst ?r = None" .
  from purge_success [OF assms(1) ok]
  have tot: "total (snd ?r) = length (all_eligible_keys c (pages client))"
    and tr: "trace (snd ?r) = listing_trace True c 1 (pages client)"
    by simp_all
  from tr have calls: "delete_calls ?r = per_page_calls c (pages client)"
    by (simp add: delete_calls_def delete_calls_of_listing_trace)
  from ok tot have rep: "reported ?r
      = Some (sum_list (map (\<lambda>f. length (eligible_keys c (objs_of f))) (pages client)))"
    by (simp add: reported_def length_all_eligible_keys)
  have "length (delete_calls ?r) = 2 \<and> reported ?r = Some 5"
    if "map (\<lambda>f. length (eligible_keys c (objs_of f))) (pages client) = [2, 0, 3]"
    using that calls rep by (simp add: length_per_page_calls)
  with tr calls rep show ?thesis
    by (simp add: per_page_calls_def)
qed

theorem per_page_delete_calls_witness:
  "trace (snd (purge ex_203 19813 90 False False))
     = [ListObjects 1, DeleteObjects [''a'', ''b''], ListObjects 2,
        ListObjects 3, DeleteObjects [''c'', ''d'', ''e'']]
   \<and> length (delete_calls (purge ex_203 19813 90 False False)) = 2
   \<and> reported (purge ex_203 19813 90 False False) = Some 5"
proof -
  have l: "listing_trace True 1704067200000000 1 (pages ex_203)
      = [ListObjects 1, DeleteObjects [''a'', ''b''], ListObjects 2,
         ListObjects 3, DeleteObjects [''c'', ''d'', ''e'']]"
    by (simp add: ex_203_def eligible_keys_def)
  have m: "map (\<lambda>f. length (eligible_keys 1704067200000000 (objs_of f))) (pages ex_203) = [2, 0, 3]"
    by (simp add: ex_203_def eligible_keys_def)
  note t = per_page_delete_calls [OF cutoff_2024 ex_203_ok]
  from t have "trace (snd (purge ex_203 19813 90 False False))
      = listing_trace True 1704067200000000 1 (pages ex_203)"
    by (rule conjunct1)
  moreover from t m have "length (delete_calls (purge ex_203 19813 90 False False)) = 2
            \<and> reported (purge ex_203 19813 90 False False) = Some 5"
    by blast
  ultimately show ?thesis
    by (simp only: l)
qed

section \<open>Dry runs and the reported total\<close>

text \<open>
  C5. A dry run issues no delete request, under either policy and for every input.
  Whenever the run that is not dry, over the same listing, reports a count, the dry run
  reports the same count; and when no delete request raises, the two runs report the same
  (a count, or nothing when the listing fails).
\<close>

theorem dry_run_issues_no_delete:
  "delete_calls (purge client today max_days ltd True) = []
   \<and> (reported (purge client today max_days ltd False) = Some n \<longrightarrow>
        reported (purge client today max_days ltd True) = Some n)
   \<and> ((\<forall>i ks. \<not> delete_raises client i ks) \<longrightarrow>
        reported (purge client today max_days ltd True)
          = reported (purge client today max_days ltd False))"
proof (cases "compute_cutoff today max_days")
  case (Inl e)
  then show ?thesis
    by (simp add: purge_overflow delete_calls_def init_state_def)
next
  case (Inr c)
  from purge_calls [OF Inr, of client ltd True]
  have 1: "delete_calls (purge client today max_days ltd True) = []" by simp
  have 2: "reported (purge client today max_days ltd True) = Some n"
    if "reported (purge client today max_days ltd False) = Some n"
  proof -
    from that have ok: "fst (purge client today max_days ltd False) = None"
      and n: "n = length (all_eligible_keys c (pages client))"
      by (simp_all add: purge_reported [OF Inr])
    from purge_success [OF Inr ok] have "list_all fetch_ok (pages client)" by simp
    from purge_reported_complete [OF Inr this, of True ltd] n show ?thesis by simp
  qed
  have 3: "reported (purge client today max_days ltd True)
          = reported (purge client today max_days ltd False)"
    if nr: "\<forall>i ks. \<not> delete_raises client i ks"
  proof (cases "list_all fetch_ok (pages client)")
    case True
    from nr purge_reported_complete [OF Inr True, of True ltd]
      purge_reported_complete [OF Inr True, of False ltd]
    show ?thesis by simp
  next
    case False
    from purge_fails_on_bad_listing [OF Inr False] show ?thesis by simp
  qed
  from 1 2 3 show ?thesis by blast
qed

theorem dry_run_issues_no_delete_witness:
  "reported (purge ex_203 19813 90 False False) = Some 5
   \<and> reported (purge ex_203 19813 90 False True) = Some 5
   \<and> delete_calls (purge ex_203 19813 90 False True) = []"
proof -
  have "length (all_eligible_keys 1704067200000000 (pages ex_203)) = 5"
    by (simp add: all_eligible_keys_def ex_203_keys)
  with purge_reported_complete [OF cutoff_2024 ex_203_ok(1), of False False] ex_203_ok(2)
  have "reported (purge ex_203 19813 90 False False) = Some 5" by simp
  with dry_run_issues_no_delete [of ex_203 19813 90 False 5] show ?thesis by simp
qed

text \<open>
  C6. The total that purge reports is the sum over all pages of the number of eligible
  objects of the page. It does not depend on the policy: two runs over the same listing
  that both report, one under each policy, report the same total; and when the listing
  runs to its end and no delete request raises (or the run is dry), both policies report
  that sum.
\<close>

theorem reported_total_policy_independent:
  assumes "compute_cutoff today max_days = Inr c"
  shows "(reported (purge client today max_days ltd dry) = Some n \<longrightarrow>
            n = sum_list (map (\<lambda>f. length (eligible_keys c (objs_of f))) (pages client)))
       \<and> (reported (purge client today max_days True dry) = Some n
            \<and> reported (purge client today max_days False dry') = Some m \<longrightarrow> n = m)
       \<and> (list_all fetch_ok (pages client) \<and> (dry \<or> (\<forall>i ks. \<not> delete_raises client i ks)) \<longrightarrow>
            reported (purge client today max_days True dry)
              = Some (sum_list (map (\<lambda>f. length (eligible_keys c (objs_of f))) (pages client)))
            \<and> reported (purge client today max_days False dry)
              = Some (sum_list (map (\<lambda>f. length (eligible_keys c (objs_of f))) (pages client))))"
  using purge_reported_complete [OF assms, of client dry]
  by (simp add: purge_reported [OF assms] length_all_eligible_keys)

theorem reported_total_policy_independent_witness:
  "reported (purge ex_203 19813 90 True False) = Some 5
   \<and> reported (purge ex_203 19813 90 False False) = Some 5"
proof -
  have "sum_list (map (\<lambda>f. length (eligible_keys 1704067200000000 (objs_of f))) (pages ex_203)) = 5"
    by (simp add: ex_203_def eligible_keys_def)
  with reported_total_policy_independent [OF cutoff_2024, where client = ex_203 and dry = False] ex_203_ok
  show ?thesis by simp
qed

section \<open>PER_PAGE does not delete a second time\<close>

theorem per_page_second_delete_counterexample:
  "delete_calls (purge ex_one 19813 90 False False) = [[''a'']]
   \<and> to_be_deleted (snd (purge ex_one 19813 90 False False)) = []"
proof -
  have ok: "list_all fetch_ok (pages ex_one)" and nr: "False \<or> (\<forall>n ks. \<not> delete_raises ex_one n ks)"
    by (simp_all add: ex_one_def never_def)
  from purge_success [OF cutoff_2024 purge_completes [OF cutoff_2024 ok nr]]
  have "trace (snd (purge ex_one 19813 90 False False))
          = listing_trace True 1704067200000000 1 (pages ex_one)"
    by simp
  then have "delete_calls (purge ex_one 19813 90 False False) = [[''a'']]"
    by (simp add: delete_calls_def ex_one_def eligible_keys_def)
  with purge_to_be_deleted_per_page [of ex_one 19813 90 False] show ?thesis by simp
qed

text \<open>
  C7, amended. Under PER_PAGE the page queue is emptied right after the delete request
  of the page (line 81), before it is appended to \<open>to_be_deleted\<close> (line 83). So
  \<open>to_be_deleted\<close> is empty at the end of every PER_PAGE run and the final chunked
  deletion issues nothing: no key is in more delete requests than it is listed as
  eligible, and in a run that completes and is not dry the delete requests are exactly
  the non-empty per-page key lists.
\<close>

theorem per_page_deletes_once:
  "to_be_deleted (snd (purge client today max_days False dry)) = []
   \<and> (compute_cutoff today max_days = Inr c \<longrightarrow>
        (\<forall>k. count_list (concat (delete_calls (purge client today max_days False dry))) k
               \<le> count_list (all_eligible_keys c (pages client)) k)
        \<and> (fst (purge client today max_days False dry) = None \<and> \<not> dry \<longrightarrow>
             delete_calls (purge client today max_days False dry)
               = filter (\<lambda>ks. ks \<noteq> []) (map (\<lambda>f. eligible_keys c (objs_of f)) (pages client))
             \<and> concat (delete_calls (purge client today max_days False dry))
               = all_eligible_keys c (pages client)))"
proof -
  let ?r = "purge client today max_days False dry"
  have 1: "to_be_deleted (snd ?r) = []"
    by (rule purge_to_be_deleted_per_page)
  have 2: "count_list (concat (delete_calls ?r)) k \<le> count_list (all_eligible_keys c (pages client)) k"
    if c: "compute_cutoff today max_days = Inr c" for k
  proof -
    from purge_calls [OF c, of client False dry, unfolded planned_calls_def if_False] obtain n where
      "delete_calls ?r = take n (if dry then [] else per_page_calls c (pages client))"
      by blast
    then show ?thesis
      using count_list_concat_take [of n "per_page_calls c (pages client)" k]
      by (cases dry) (simp_all add: concat_per_page_calls)
  qed
  have 3: "delete_calls ?r = filter (\<lambda>ks. ks \<noteq> []) (map (\<lambda>f. eligible_keys c (objs_of f)) (pages client))
           \<and> concat (delete_calls ?r) = all_eligible_keys c (pages client)"
    if c: "compute_cutoff today max_days = Inr c" and ok: "fst ?r = None" and nd: "\<not> dry"
  proof -
    from purge_success [OF c ok] nd
    have "trace (snd ?r) = listing_trace True c 1 (pages client)" by simp
    then have "delete_calls ?r = per_page_calls c (pages client)"
      by (simp add: delete_calls_def delete_calls_of_listing_trace)
    then show ?thesis
      using concat_per_page_calls [of c "pages client"] by (simp add: per_page_calls_def)
  qed
  from 1 2 3 show ?thesis by blast
qed

theorem per_page_deletes_once_witness:
  "to_be_deleted (snd (purge ex_203 19813 90 False False)) = []
   \<and> concat (delete_calls (purge ex_203 19813 90 False False)) = [''a'', ''b'', ''c'', ''d'', ''e'']
   \<and> count_list (concat (delete_calls (purge ex_203 19813 90 False False))) ''a'' \<le> 1"
proof -
  have k: "all_eligible_keys 1704067200000000 (pages ex_203) = [''a'', ''b'', ''c'', ''d'', ''e'']"
    by (simp add: all_eligible_keys_def ex_203_keys)
  from ex_203_ok(2) have "False \<or> (\<forall>n ks. \<not> delete_raises ex_203 n ks)" by simp
  from purge_completes [OF cutoff_2024 ex_203_ok(1) this]
  have ok: "fst (purge ex_203 19813 90 False False) = None" .
  from per_page_deletes_once [of ex_203 19813 90 False "1704067200000000"] cutoff_2024 ok
  have "to_be_deleted (snd (purge ex_203 19813 90 False False)) = []"
    and "concat (delete_calls (purge ex_203 19813 90 False False))
           = all_eligible_keys 1704067200000000 (pages ex_203)"
    and "count_list (concat (delete_calls (purge ex_203 19813 90 False False))) ''a''
           \<le> count_list (all_eligible_keys 1704067200000000 (pages ex_203)) ''a''"
    by blast+
  then show ?thesis by (simp add: k)
qed

section \<open>What a delete request holds\<close>

lemma set_all_eligible_keys:
  "set (all_eligible_keys c fs) = Key ` {ob \<in> set (listed_objs fs). LastModified ob \<le> c}"
  by (auto simp: all_eligible_keys_def listed_objs_def eligible_keys_def)

lemma per_page_call_cases:
  assumes "ks \<in> set (per_page_calls c fs)"
  shows "ks \<noteq> [] \<and> (\<exists>f \<in> set fs. ks = eligible_keys c (objs_of f))
       \<and> set ks \<subseteq> set (all_eligible_keys c fs)"
  using assms by (auto simp: per_page_calls_def all_eligible_keys_def)

lemma chunk_cases:
  assumes "ks \<in> set (chunks xs)"
  shows "ks \<noteq> [] \<and> length ks \<le> 1000 \<and> set ks \<subseteq> set xs"
proof -
  from chunks_props [of xs] assms have "ks \<noteq> []" "length ks \<le> 1000" by blast+
  moreover from assms have "set ks \<subseteq> set (concat (chunks xs))" by auto
  with chunks_props [of xs] have "set ks \<subseteq> set xs" by simp
  ultimately show ?thesis by simp
qed

lemma length_eligible_keys_le: "length (eligible_keys c objs) \<le> length objs"
  by (simp add: eligible_keys_def)

text \<open>
  An object at or before the cutoff is not always in a delete request. In a bucket whose
  second page request raises, the old object of the third page is never reached: under
  PER_PAGE only the key of the first page is deleted, under GLOBAL_CHUNKED nothing is.
  And a dry run issues no delete request for the old object it finds.
\<close>

theorem eligible_object_not_deleted_counterexample:
  "compute_cutoff 19813 90 = Inr 1704067200000000
   \<and> pages broken_bucket
       = [Page \<lparr>Contents = Some [\<lparr>Key = ''a1'', LastModified = 0\<rparr>]\<rparr>, Raises,
          Page \<lparr>Contents = Some [\<lparr>Key = ''a2'', LastModified = 0\<rparr>]\<rparr>]
   \<and> purge broken_bucket 19813 90 False False
       = (Some ListError,
          \<lparr>total = 1, to_be_deleted = [],
           trace = [ListObjects 1, DeleteObjects [''a1''], ListObjects 2]\<rparr>)
   \<and> delete_calls (purge broken_bucket 19813 90 False False) = [[''a1'']]
   \<and> delete_calls (purge broken_bucket 19813 90 True False) = []
   \<and> pages ex_one = [Page \<lparr>Contents = Some [\<lparr>Key = ''a'', LastModified = 0\<rparr>]\<rparr>]
   \<and> delete_calls (purge ex_one 19813 90 True True) = []
   \<and> delete_calls (purge ex_one 19813 90 False True) = []"
  by (simp add: broken_bucket_def ex_one_def never_def delete_calls_def purge_def
        compute_cutoff_def date_min_def date_max_def usec_per_day_def init_state_def
        purge_loop.simps delete_unless_dry_def delete_objects_def chunks_Cons chunks_Nil)

text \<open>
  C2, amended. Every delete request that purge issues, in any run under either policy, is
  not empty, is issued only when the run is not dry, and holds only keys of listed objects
  whose LastModified is at or before the cutoff: the filter is the only way into a
  request. Under GLOBAL_CHUNKED it holds at most 1000 keys; under PER_PAGE it holds the
  eligible keys of one page, so with pages of at most 1000 objects, as the provider
  delivers them, every request of either policy holds at most 1000 keys. In a run that
  completes and is not dry, the keys in the delete requests are exactly the keys of the
  eligible listed objects; with the keys of the listing distinct, a listed object's key
  is in a delete request if and only if its LastModified is at or before the cutoff.
  A dry run, or a run that raises, leaves eligible objects out.
\<close>

theorem delete_call_invariant:
  assumes "compute_cutoff today max_days = Inr c"
  shows "(\<forall>ks \<in> set (delete_calls (purge client today max_days ltd dry)).
            ks \<noteq> [] \<and> \<not> dry
            \<and> set ks \<subseteq> Key ` {ob \<in> set (listed_objs (pages client)). LastModified ob \<le> c}
            \<and> (distinct (map Key (listed_objs (pages client))) \<longrightarrow>
                 (\<forall>ob \<in> set (listed_objs (pages client)).
                    Key ob \<in> set ks \<longrightarrow> LastModified ob \<le> c))
            \<and> (ltd \<longrightarrow> length ks \<le> 1000)
            \<and> (\<not> ltd \<longrightarrow> (\<exists>f \<in> set (pages client). ks = eligible_keys c (objs_of f)))
            \<and> (list_all (\<lambda>f. length (objs_of f) \<le> 1000) (pages client) \<longrightarrow> length ks \<le> 1000))
       \<and> (fst (purge client today max_days ltd dry) = None \<and> \<not> dry \<longrightarrow>
            set (concat (delete_calls (purge client today max_days ltd dry)))
              = Key ` {ob \<in> set (listed_objs (pages client)). LastModified ob \<le> c}
            \<and> (distinct (map Key (listed_objs (pages client))) \<longrightarrow>
                 (\<forall>ob \<in> set (listed_objs (pages client)).
                    (Key ob \<in> set (concat (delete_calls (purge client today max_days ltd dry))))
                      = (LastModified ob \<le> c))))"
proof -
  let ?r = "purge client today max_days ltd dry"
  let ?E = "Key ` {ob \<in> set (listed_objs (pages client)). LastModified ob \<le> c}"
  have E: "(Key ob \<in> ?E) = (LastModified ob \<le> c)"
    if d: "distinct (map Key (listed_objs (pages client)))"
      and ob: "ob \<in> set (listed_objs (pages client))" for ob
  proof
    assume "Key ob \<in> ?E"
    then obtain ob' where ob': "ob' \<in> set (listed_objs (pages client))"
      "LastModified ob' \<le> c" "Key ob' = Key ob" by auto
    from d have "inj_on Key (set (listed_objs (pages client)))"
      by (simp add: distinct_map)
    with ob ob'(1,3) have "ob' = ob" by (auto dest: inj_onD)
    with ob'(2) show "LastModified ob \<le> c" by simp
  next
    assume "LastModified ob \<le> c"
    with ob show "Key ob \<in> ?E" by auto
  qed
  have 0: "ks \<noteq> [] \<and> \<not> dry \<and> set ks \<subseteq> ?E
            \<and> (ltd \<longrightarrow> length ks \<le> 1000)
            \<and> (\<not> ltd \<longrightarrow> (\<exists>f \<in> set (pages client). ks = eligible_keys c (objs_of f)))
            \<and> (list_all (\<lambda>f. length (objs_of f) \<le> 1000) (pages client) \<longrightarrow> length ks \<le> 1000)"
    if ks: "ks \<in> set (delete_calls ?r)" for ks
  proof -
    from purge_calls [OF assms, of client ltd dry] obtain n where
      n: "delete_calls ?r = take n (if dry then [] else planned_calls ltd c (pages client))" ..
    from ks n have nd: "\<not> dry" by (cases dry) simp_all
    with ks n have "ks \<in> set (take n (planned_calls ltd c (pages client)))" by simp
    then have pl: "ks \<in> set (planned_calls ltd c (pages client))" by (rule in_set_takeD)
    show ?thesis
    proof (cases ltd)
      case True
      with pl have "ks \<in> set (chunks (all_eligible_keys c (pages client)))"
        by (simp add: planned_calls_def)
      from chunk_cases [OF this] True nd show ?thesis
        by (simp add: set_all_eligible_keys)
    next
      case False
      with pl have "ks \<in> set (per_page_calls c (pages client))"
        by (simp add: planned_calls_def)
      from per_page_call_cases [OF this] obtain f where
        f: "f \<in> set (pages client)" "ks = eligible_keys c (objs_of f)"
        and ne: "ks \<noteq> []" and sub: "set ks \<subseteq> set (all_eligible_keys c (pages client))"
        by blast
      have "length ks \<le> 1000" if "list_all (\<lambda>f. length (objs_of f) \<le> 1000) (pages client)"
      proof -
        from that f(1) have "length (objs_of f) \<le> 1000" by (simp add: list_all_iff)
        with length_eligible_keys_le [of c "objs_of f"] f(2) show ?thesis by simp
      qed
      with f ne sub False nd show ?thesis
        by (auto simp: set_all_eligible_keys)
    qed
  qed
  have 2: "set (concat (delete_calls ?r)) = ?E
            \<and> (distinct (map Key (listed_objs (pages client))) \<longrightarrow>
                 (\<forall>ob \<in> set (listed_objs (pages client)).
                    (Key ob \<in> set (concat (delete_calls ?r))) = (LastModified ob \<le> c)))"
    if ok: "fst ?r = None" and nd: "\<not> dry"
  proof -
    from purge_success [OF assms ok] nd
    have "delete_calls ?r = (if ltd then chunks (all_eligible_keys c (pages client))
                             else per_page_calls c (pages client))"
      by (simp add: delete_calls_def delete_calls_of_append delete_calls_of_listing_trace
            delete_calls_of_map_DeleteObjects)
    with chunks_props [of "all_eligible_keys c (pages client)"]
      concat_per_page_calls [of c "pages client"]
    have "concat (delete_calls ?r) = all_eligible_keys c (pages client)"
      by (cases ltd) simp_all
    then have "set (concat (delete_calls ?r)) = ?E"
      by (simp add: set_all_eligible_keys)
    with E show ?thesis by simp
  qed
  have 1: "ks \<noteq> [] \<and> \<not> dry \<and> set ks \<subseteq> ?E
            \<and> (distinct (map Key (listed_objs (pages client))) \<longrightarrow>
                 (\<forall>ob \<in> set (listed_objs (pages client)).
                    Key ob \<in> set ks \<longrightarrow> LastModified ob \<le> c))
            \<and> (ltd \<longrightarrow> length ks \<le> 1000)
            \<and> (\<not> ltd \<longrightarrow> (\<exists>f \<in> set (pages client). ks = eligible_keys c (objs_of f)))
            \<and> (list_all (\<lambda>f. length (objs_of f) \<le> 1000) (pages client) \<longrightarrow> length ks \<le> 1000)"
    if ks: "ks \<in> set (delete_calls ?r)" for ks
  proof -
    note k = 0 [OF ks]
    from k have sub: "set ks \<subseteq> ?E" by blast
    have "LastModified ob \<le> c"
      if "distinct (map Key (listed_objs (pages client)))"
        and "ob \<in> set (listed_objs (pages client))" and "Key ob \<in> set ks" for ob
      using E [OF that(1,2)] sub that(3) by blast
    with k show ?thesis by blast
  qed
  from 1 2 show ?thesis by blast
qed

theorem delete_call_invariant_witness:
  "delete_calls (purge ex_203 19813 90 False False) = [[''a'', ''b''], [''c'', ''d'', ''e'']]
   \<and> fst (purge ex_203 19813 90 False False) = None
   \<and> distinct (map Key (listed_objs (pages ex_203)))
   \<and> set (concat (delete_calls (purge ex_203 19813 90 False False)))
       = Key ` {ob \<in> set (listed_objs (pages ex_203)). LastModified ob \<le> 1704067200000000}
   \<and> list_all (\<lambda>f. length (objs_of f) \<le> 1000) (pages ex_203)
   \<and> list_all (\<lambda>ks. ks \<noteq> [] \<and> length ks \<le> 1000)
         (delete_calls (purge ex_203 19813 90 False False))"
proof -
  from ex_203_ok(2) have "False \<or> (\<forall>n ks. \<not> delete_raises ex_203 n ks)" by simp
  from purge_completes [OF cutoff_2024 ex_203_ok(1) this]
  have ok: "fst (purge ex_203 19813 90 False False) = None" .
  from purge_success [OF cutoff_2024 ok]
  have "trace (snd (purge ex_203 19813 90 False False))
          = listing_trace True 1704067200000000 1 (pages ex_203)" by simp
  then have calls: "delete_calls (purge ex_203 19813 90 False False)
          = [[''a'', ''b''], [''c'', ''d'', ''e'']]"
    by (simp add: delete_calls_def delete_calls_of_listing_trace per_page_calls_def ex_203_keys)
  have d: "distinct (map Key (listed_objs (pages ex_203)))"
    by (simp add: listed_objs_def ex_203_def)
  have p: "list_all (\<lambda>f. length (objs_of f) \<le> 1000) (pages ex_203)"
    by (simp add: ex_203_def)
  from delete_call_invariant [OF cutoff_2024, of ex_203 False False] ok p
  have "set (concat (delete_calls (purge ex_203 19813 90 False False)))
       = Key ` {ob \<in> set (listed_objs (pages ex_203)). LastModified ob \<le> 1704067200000000}"
    and "\<forall>ks \<in> set (delete_calls (purge ex_203 19813 90 False False)). ks \<noteq> [] \<and> length ks \<le> 1000"
    by blast+
  with calls ok d p show ?thesis by (simp only: list_all_iff)
qed

section \<open>A page without Contents\<close>

lemma purge_at_missing_contents:
  assumes c: "compute_cutoff today md = Inr c"
    and ps: "pages cl = ps @ Page p # rest" and p: "Contents p = None"
  shows "purge cl today md ltd dry =
     (case purge_loop cl c ltd dry 1 ps init_state of
        (Some e, s) \<Rightarrow> (Some e, s)
      | (None, s) \<Rightarrow>
          (Some (KeyError ''Contents''), s\<lparr>trace := trace s @ [ListObjects (Suc (length ps))]\<rparr>))"
proof -
  obtain e s where l: "purge_loop cl c ltd dry 1 ps init_state = (e, s)"
    by (cases "purge_loop cl c ltd dry 1 ps init_state")
  show ?thesis
  proof (cases e)
    case None
    with l p have "purge_loop cl c ltd dry 1 (ps @ Page p # rest) init_state
        = (Some (KeyError ''Contents''), s\<lparr>trace := trace s @ [ListObjects (Suc (length ps))]\<rparr>)"
      by (simp add: purge_loop_append purge_loop_Page_None)
    with c ps l None show ?thesis by (simp add: purge_def)
  next
    case (Some e')
    with l have "purge_loop cl c ltd dry 1 (ps @ Page p # rest) init_state = (Some e', s)"
      by (simp add: purge_loop_append)
    with c ps l Some show ?thesis by (simp add: purge_def)
  qed
qed

text \<open>
  C10. When a page of the listing has no \<^verbatim>\<open>'Contents'\<close> entry, purge raises
  \<^verbatim>\<open>KeyError('Contents')\<close> at that page, under either policy and dry or not: the run is
  the run over the pages before it, and, if that has not raised already, it ends in
  the error right after the request for that page, with no object of the page counted
  and no delete request for it (and, under GLOBAL_CHUNKED, none at all, though keys are
  queued). Nothing is reported. For an empty bucket, whose only page has no Contents,
  the run is one page request and the error.
\<close>

theorem missing_contents_fails:
  assumes "compute_cutoff today max_days = Inr c"
    and "pages client = ps @ Page p # rest" and "Contents p = None"
  shows "purge client today max_days ltd dry =
           (case purge_loop client c ltd dry 1 ps init_state of
              (Some e, s) \<Rightarrow> (Some e, s)
            | (None, s) \<Rightarrow>
                (Some (KeyError ''Contents''),
                 s\<lparr>trace := trace s @ [ListObjects (Suc (length ps))]\<rparr>))
       \<and> fst (purge client today max_days ltd dry) \<noteq> None
       \<and> reported (purge client today max_days ltd dry) = None
       \<and> (list_all fetch_ok ps \<and> (ltd \<or> dry \<or> (\<forall>i ks. \<not> delete_raises client i ks)) \<longrightarrow>
            fst (purge client today max_days ltd dry) = Some (KeyError ''Contents'')
            \<and> total (snd (purge client today max_days ltd dry)) = length (all_eligible_keys c ps)
            \<and> trace (snd (purge client today max_days ltd dry))
                = listing_trace (\<not> ltd \<and> \<not> dry) c 1 ps @ [ListObjects (Suc (length ps))])
       \<and> (ps = [] \<longrightarrow>
            purge client today max_days ltd dry
              = (Some (KeyError ''Contents''),
                 \<lparr>total = 0, to_be_deleted = [], trace = [ListObjects 1]\<rparr>))"
proof -
  let ?r = "purge client today max_days ltd dry"
  note eq = purge_at_missing_contents [OF assms, of ltd dry]
  obtain e s where l: "purge_loop client c ltd dry 1 ps init_state = (e, s)"
    by (cases "purge_loop client c ltd dry 1 ps init_state")
  from eq l have ne: "fst ?r \<noteq> None" by (cases e) simp_all
  then have rep: "reported ?r = None" by (auto simp: reported_def)
  have 3: "fst ?r = Some (KeyError ''Contents'')
            \<and> total (snd ?r) = length (all_eligible_keys c ps)
            \<and> trace (snd ?r) = listing_trace (\<not> ltd \<and> \<not> dry) c 1 ps @ [ListObjects (Suc (length ps))]"
    if ok: "list_all fetch_ok ps" and nr: "ltd \<or> dry \<or> (\<forall>i ks. \<not> delete_raises client i ks)"
  proof -
    from purge_loop_completes [OF ok nr, of c 1 init_state] l have e: "e = None" by simp
    from purge_loop_success [of client c ltd dry 1 ps init_state] l e
    have "total s = length (all_eligible_keys c ps)"
      and "trace s = listing_trace (\<not> ltd \<and> \<not> dry) c 1 ps"
      by (simp_all add: init_state_def)
    with eq l e show ?thesis by simp
  qed
  have 4: "?r = (Some (KeyError ''Contents''), \<lparr>total = 0, to_be_deleted = [], trace = [ListObjects 1]\<rparr>)"
    if "ps = []"
    using eq that by (simp add: init_state_def)
  from eq ne rep 3 4 show ?thesis by blast
qed

theorem missing_contents_fails_witness:
  "purge ex_empty 19813 90 True False
     = (Some (KeyError ''Contents''), \<lparr>total = 0, to_be_deleted = [], trace = [ListObjects 1]\<rparr>)
   \<and> purge ex_empty 19813 90 False True
     = (Some (KeyError ''Contents''), \<lparr>total = 0, to_be_deleted = [], trace = [ListObjects 1]\<rparr>)
   \<and> reported (purge ex_empty 19813 90 True False) = None"
proof -
  have p: "pages ex_empty = [] @ Page \<lparr>Contents = None\<rparr> # []"
    by (simp add: ex_empty_def)
  have n: "Contents \<lparr>Contents = None\<rparr> = None" by simp
  from missing_contents_fails [OF cutoff_2024 p n, of True False]
    missing_contents_fails [OF cutoff_2024 p n, of False True]
  show ?thesis by blast
qed

section \<open>A request that raises ends the run\<close>

lemma quiet_Nil: "quiet cl []"
  by (simp add: quiet_def)

lemma snoc_split:
  assumes "tr @ [ev] = es @ ev' # es'"
  shows "(es' = [] \<and> es = tr \<and> ev' = ev) \<or> (\<exists>es''. es' = es'' @ [ev] \<and> tr = es @ ev' # es'')"
proof (cases es' rule: rev_cases)
  case Nil
  with assms show ?thesis by simp
next
  case (snoc es'' x)
  with assms have "tr @ [ev] = (es @ ev' # es'') @ [x]" by simp
  then have "tr = es @ ev' # es''" and "x = ev" by simp_all
  with snoc show ?thesis by simp
qed

lemma quiet_snoc:
  "quiet cl (tr @ [ev]) \<longleftrightarrow> quiet cl tr \<and> \<not> request_raises cl tr ev"
proof
  assume q: "quiet cl (tr @ [ev])"
  have "quiet cl tr"
    unfolding quiet_def
  proof (intro allI impI)
    fix es ev' es'
    assume "tr = es @ ev' # es'"
    then have "tr @ [ev] = es @ ev' # (es' @ [ev])" by simp
    with q show "\<not> request_raises cl es ev'" unfolding quiet_def by blast
  qed
  moreover from q have "\<not> request_raises cl tr ev"
    unfolding quiet_def by blast
  ultimately show "quiet cl tr \<and> \<not> request_raises cl tr ev" ..
next
  assume a: "quiet cl tr \<and> \<not> request_raises cl tr ev"
  show "quiet cl (tr @ [ev])"
    unfolding quiet_def
  proof (intro allI impI)
    fix es ev' es'
    assume "tr @ [ev] = es @ ev' # es'"
    from snoc_split [OF this] a show "\<not> request_raises cl es ev'"
      unfolding quiet_def by blast
  qed
qed

lemma aborts_None: "quiet cl (trace s) \<Longrightarrow> aborts_at_raise cl (None, s)"
  by (simp add: aborts_at_raise_def quiet_def)

lemma aborts_Some:
  assumes "quiet cl tr" and "trace s = tr @ [ev]"
    and "request_raises cl tr ev \<longrightarrow> err = request_error ev"
  shows "aborts_at_raise cl (Some err, s)"
  unfolding aborts_at_raise_def
proof (intro allI impI)
  fix es ev' es'
  assume "trace (snd (Some err, s)) = es @ ev' # es'" and r: "request_raises cl es ev'"
  with assms(2) have "tr @ [ev] = es @ ev' # es'" by simp
  from snoc_split [OF this] assms(1) r have "es' = [] \<and> es = tr \<and> ev' = ev"
    unfolding quiet_def by blast
  with assms(3) r show "es' = [] \<and> fst (Some err, s) = Some (request_error ev')" by simp
qed

lemma delete_unless_dry_aborts:
  assumes d: "delete_unless_dry cl dry ks s = (e, s')" and q: "quiet cl (trace s)"
  shows "(e = None \<longrightarrow> quiet cl (trace s')) \<and> (e \<noteq> None \<longrightarrow> aborts_at_raise cl (e, s'))"
proof (cases dry)
  case True
  with d q show ?thesis by (simp add: delete_unless_dry_def)
next
  case False
  with d have t: "trace s' = trace s @ [DeleteObjects ks]"
    and e: "e = (if delete_raises cl (length (delete_calls_of (trace s))) ks then Some DeleteError else None)"
    by (auto simp: delete_unless_dry_def delete_objects_def Let_def split: if_splits)
  show ?thesis
  proof (cases "delete_raises cl (length (delete_calls_of (trace s))) ks")
    case True
    with e have "e = Some DeleteError" by simp
    moreover have "aborts_at_raise cl (Some DeleteError, s')"
      by (rule aborts_Some [OF q t]) simp
    ultimately show ?thesis by simp
  next
    case False
    with e q t show ?thesis by (simp add: quiet_snoc)
  qed
qed

lemma purge_loop_aborts:
  "\<forall>seen. pages cl = seen @ fs \<and> i = Suc (length seen) \<and> quiet cl (trace s) \<longrightarrow>
     aborts_at_raise cl (purge_loop cl c ltd dry i fs s)
     \<and> (fst (purge_loop cl c ltd dry i fs s) = None \<longrightarrow>
          quiet cl (trace (snd (purge_loop cl c ltd dry i fs s))))"
proof (induction i fs s rule: purge_loop_induct [where cl = cl and c = c and ltd = ltd and dry = dry])
  case (Nil i s)
  then show ?case by (simp add: aborts_None)
next
  case (Raises i rest s)
  have "aborts_at_raise cl (Some ListError, s\<lparr>trace := trace s @ [ListObjects i]\<rparr>)"
    if "quiet cl (trace s)"
    by (rule aborts_Some [OF that, where ev = "ListObjects i"]) simp_all
  then show ?case by auto
next
  case (Missing p i rest s)
  have "aborts_at_raise cl (Some (KeyError ''Contents''), s\<lparr>trace := trace s @ [ListObjects i]\<rparr>)"
    if q: "quiet cl (trace s)" and p: "pages cl = seen @ Page p # rest" and i: "i = Suc (length seen)"
    for seen
  proof (rule aborts_Some [OF q, where ev = "ListObjects i"])
    from p i show "request_raises cl (trace s) (ListObjects i)
        \<longrightarrow> KeyError ''Contents'' = request_error (ListObjects i)"
      by simp
  qed simp
  with Missing show ?case by (auto simp: purge_loop_Page_None)
next
  case (Queue p objs i rest s)
  show ?case
  proof (intro allI impI)
    fix seen
    assume a: "pages cl = seen @ Page p # rest \<and> i = Suc (length seen) \<and> quiet cl (trace s)"
    then have nr: "\<not> request_raises cl (trace s) (ListObjects i)" by simp
    from a have "pages cl = (seen @ [Page p]) @ rest \<and> Suc i = Suc (length (seen @ [Page p]))
        \<and> quiet cl (trace ((after_scan c i objs s)\<lparr>to_be_deleted := to_be_deleted s @ eligible_keys c objs\<rparr>))"
      using nr by (simp add: quiet_snoc)
    with Queue(4) Queue(3)
    show "aborts_at_raise cl (purge_loop cl c ltd dry i (Page p # rest) s)
     \<and> (fst (purge_loop cl c ltd dry i (Page p # rest) s) = None \<longrightarrow>
          quiet cl (trace (snd (purge_loop cl c ltd dry i (Page p # rest) s))))"
      by metis
  qed
next
  case (DeleteFails p objs i rest s e s3)
  show ?case
  proof (intro allI impI)
    fix seen
    assume a: "pages cl = seen @ Page p # rest \<and> i = Suc (length seen) \<and> quiet cl (trace s)"
    then have nr: "\<not> request_raises cl (trace s) (ListObjects i)" by simp
    with a have "quiet cl (trace (after_scan c i objs s))" by (simp add: quiet_snoc)
    from delete_unless_dry_aborts [OF DeleteFails(4) this] DeleteFails(5)
    show "aborts_at_raise cl (purge_loop cl c ltd dry i (Page p # rest) s)
     \<and> (fst (purge_loop cl c ltd dry i (Page p # rest) s) = None \<longrightarrow>
          quiet cl (trace (snd (purge_loop cl c ltd dry i (Page p # rest) s))))"
      by simp
  qed
next
  case (DeleteOk p objs i rest s s3)
  show ?case
  proof (intro allI impI)
    fix seen
    assume a: "pages cl = seen @ Page p # rest \<and> i = Suc (length seen) \<and> quiet cl (trace s)"
    then have nr: "\<not> request_raises cl (trace s) (ListObjects i)" by simp
    with a have "quiet cl (trace (after_scan c i objs s))" by (simp add: quiet_snoc)
    from delete_unless_dry_aborts [OF DeleteOk(4) this] have "quiet cl (trace s3)" by simp
    with a have "pages cl = (seen @ [Page p]) @ rest \<and> Suc i = Suc (length (seen @ [Page p]))
        \<and> quiet cl (trace s3)"
      by simp
    with DeleteOk(6) DeleteOk(5)
    show "aborts_at_raise cl (purge_loop cl c ltd dry i (Page p # rest) s)
     \<and> (fst (purge_loop cl c ltd dry i (Page p # rest) s) = None \<longrightarrow>
          quiet cl (trace (snd (purge_loop cl c ltd dry i (Page p # rest) s))))"
      by metis
  qed
qed

lemma delete_chunks_aborts:
  "quiet cl (trace s) \<Longrightarrow> aborts_at_raise cl (delete_chunks cl dry cs s)"
proof (induction cs arbitrary: s)
  case Nil
  then show ?case by (simp add: aborts_None)
next
  case (Cons ch cs)
  obtain e s' where d: "delete_unless_dry cl dry ch s = (e, s')"
    by (cases "delete_unless_dry cl dry ch s")
  from delete_unless_dry_aborts [OF d Cons.prems] Cons.IH [of s'] d show ?case
    by (cases e) simp_all
qed

lemma purge_aborts: "aborts_at_raise cl (purge cl today md ltd dry)"
proof (cases "compute_cutoff today md")
  case (Inl e)
  then show ?thesis by (simp add: purge_def aborts_at_raise_def init_state_def)
next
  case (Inr c)
  obtain e s where l: "purge_loop cl c ltd dry 1 (pages cl) init_state = (e, s)"
    by (cases "purge_loop cl c ltd dry 1 (pages cl) init_state")
  have "pages cl = [] @ pages cl \<and> 1 = Suc (length ([]::fetch list)) \<and> quiet cl (trace init_state)"
    by (simp add: init_state_def quiet_Nil)
  with purge_loop_aborts [of cl "pages cl" 1 init_state c ltd dry] l
  have a: "aborts_at_raise cl (e, s)" and q: "e = None \<longrightarrow> quiet cl (trace s)"
    by (metis, metis fst_conv snd_conv)
  show ?thesis
  proof (cases e)
    case None
    with q have "quiet cl (trace s)" by simp
    from delete_chunks_aborts [OF this] aborts_None [OF this] Inr l None show ?thesis
      by (simp add: purge_def)
  next
    case (Some e')
    with a Inr l show ?thesis by (simp add: purge_def)
  qed
qed

section \<open>do and its jobs\<close>

lemmas run_simps =
  purge_def compute_cutoff_def date_min_def date_max_def usec_per_day_def init_state_def
  purge_loop.simps delete_unless_dry_def delete_objects_def Let_def chunks_Cons chunks_Nil
  never_def

lemma recent_bucket_runs:
  "purge recent_bucket 19813 90 True False
     = (None, \<lparr>total = 0, to_be_deleted = [], trace = [ListObjects 1]\<rparr>)"
  "purge recent_bucket 19814 90 True False
     = (None, \<lparr>total = 1, to_be_deleted = [''k''], trace = [ListObjects 1, DeleteObjects [''k'']]\<rparr>)"
  by (simp_all add: recent_bucket_def run_simps)

lemma broken_bucket_run:
  "purge broken_bucket 19813 90 True False
     = (Some ListError, \<lparr>total = 1, to_be_deleted = [''a1''], trace = [ListObjects 1, ListObjects 2]\<rparr>)"
  by (simp add: broken_bucket_def run_simps)

lemma ex_one_run:
  "purge ex_one 19813 90 True False
     = (None, \<lparr>total = 1, to_be_deleted = [''a''], trace = [ListObjects 1, DeleteObjects [''a'']]\<rparr>)"
  by (simp add: ex_one_def run_simps)

lemma midnight_run:
  "do midnight_args midnight_world
     = Inr ([(''a'', (None, \<lparr>total = 0, to_be_deleted = [], trace = [ListObjects 1]\<rparr>)),
             (''b'', (None, \<lparr>total = 1, to_be_deleted = [''k''],
                             trace = [ListObjects 1, DeleteObjects [''k'']]\<rparr>))], [])"
  by (simp add: do_def midnight_args_def midnight_world_def check_targets_def select_buckets_def
        recent_bucket_runs compute_cutoff_def date_min_def date_max_def)

lemma ex_empty_run:
  "purge ex_empty 19813 90 True False
     = (Some (KeyError ''Contents''), \<lparr>total = 0, to_be_deleted = [], trace = [ListObjects 1]\<rparr>)"
  by (simp add: ex_empty_def run_simps)

lemma fleet_run:
  "do fleet_args fleet_world = Inr (fleet_jobs, [KeyError ''Contents'', ListError])"
  by (simp add: do_def fleet_args_def fleet_world_def check_targets_def select_buckets_def
        recent_bucket_runs broken_bucket_run ex_one_run ex_empty_run compute_cutoff_def
        date_min_def date_max_def fleet_jobs_def)

lemma do_Inr:
  assumes "do a w = Inr (jobs, logged)"
  shows "\<exists>names. list_buckets w = Inr names
           \<and> jobs = map (\<lambda>bucket. (bucket,
                   purge (bucket_client w bucket) (clock_job w bucket) (days a)
                     (delete_method a = ''list_then_delete'') (dry_run a)))
                   (select_buckets a names)"
    and "logged = log_failures (map (\<lambda>i. snd (jobs ! i)) (completion w))"
    and "check_targets a = None"
    and "\<exists>c. compute_cutoff (clock_main w) (days a) = Inr c"
  using assms
  by (auto simp: do_def Let_def split: option.splits sum.splits)

lemma do_job:
  assumes "do a w = Inr (jobs, logged)" and "(b, r) \<in> set jobs"
  shows "r = purge (bucket_client w b) (clock_job w b) (days a)
               (delete_method a = ''list_then_delete'') (dry_run a)"
  using do_Inr(1) [OF assms(1)] assms(2) by auto

lemma mset_log_failures:
  "mset rs = mset rs' \<Longrightarrow> mset (log_failures rs) = mset (log_failures rs')"
proof -
  have "mset (log_failures rs) = {#the (fst r). r \<in># filter_mset (\<lambda>r. fst r \<noteq> None) (mset rs)#}" for rs
    by (induction rs rule: log_failures.induct) simp_all
  then show "mset rs = mset rs' \<Longrightarrow> mset (log_failures rs) = mset (log_failures rs')"
    by simp
qed

lemma log_failures_concat:
  "log_failures rs = concat (map (\<lambda>r. case fst r of Some e \<Rightarrow> [e] | None \<Rightarrow> []) rs)"
  by (induction rs rule: log_failures.induct) simp_all

lemma count_list_log_failures:
  "count_list (log_failures rs) e = length (filter (\<lambda>r. fst r = Some e) rs)"
  by (induction rs rule: log_failures.induct) simp_all

lemma length_log_failures:
  "length (log_failures rs) = length (filter (\<lambda>r. fst r \<noteq> None) rs)"
  by (induction rs rule: log_failures.induct) simp_all

lemma mset_completed:
  assumes "mset order = mset [0..<length xs]"
  shows "mset (map (\<lambda>i. f (xs ! i)) order) = mset (map f xs)"
proof -
  have "map (\<lambda>i. f (xs ! i)) [0..<length xs] = map f xs"
    by (rule nth_equalityI) simp_all
  then have "mset (map f xs) = image_mset (\<lambda>i. f (xs ! i)) (mset [0..<length xs])"
    by (simp only: mset_map [symmetric])
  also have "\<dots> = image_mset (\<lambda>i. f (xs ! i)) (mset order)"
    by (simp only: assms)
  also have "\<dots> = mset (map (\<lambda>i. f (xs ! i)) order)"
    by (simp only: mset_map)
  finally show ?thesis by (rule sym)
qed

lemma length_all_eligible_filter:
  "all_eligible_keys c fs = map Key (filter (\<lambda>ob. LastModified ob \<le> c) (listed_objs fs))"
  by (induction fs) (simp_all add: all_eligible_keys_def listed_objs_def eligible_keys_def)


lemma do_other_bucket:
  assumes "do a w = Inr (jobs, logged)"
  shows "\<exists>jobs' logged'.
           do a (w\<lparr>bucket_client := (bucket_client w)(b' := cl')\<rparr>) = Inr (jobs', logged')
           \<and> map fst jobs' = map fst jobs
           \<and> (\<forall>(b, r) \<in> set jobs. b \<noteq> b' \<longrightarrow> (b, r) \<in> set jobs')"
proof -
  let ?w' = "w\<lparr>bucket_client := (bucket_client w)(b' := cl')\<rparr>"
  let ?job = "\<lambda>w bucket. (bucket,
                   purge (bucket_client w bucket) (clock_job w bucket) (days a)
                     (delete_method a = ''list_then_delete'') (dry_run a))"
  from do_Inr [OF assms] obtain names c where
    n: "list_buckets w = Inr names" and j: "jobs = map (?job w) (select_buckets a names)"
    and t: "check_targets a = None" and c: "compute_cutoff (clock_main w) (days a) = Inr c"
    by blast
  let ?jobs' = "map (?job ?w') (select_buckets a names)"
  from n t c have "do a ?w' = Inr (?jobs', log_failures (map (\<lambda>i. snd (?jobs' ! i)) (completion ?w')))"
    by (simp add: do_def Let_def)
  moreover have "map fst ?jobs' = map fst jobs"
    by (simp add: j comp_def)
  moreover have "\<forall>(b, r) \<in> set jobs. b \<noteq> b' \<longrightarrow> (b, r) \<in> set ?jobs'"
    by (auto simp: j)
  ultimately show ?thesis by blast
qed

text \<open>
  C9. In a run of \<^verbatim>\<open>do\<close> that reaches the pool, the outcome of the job of a bucket is
  that of \<^verbatim>\<open>purge\<close> on what the client of that bucket sees. A page request or a delete
  request of the job that raises is the last request of the job: no page or delete
  request follows it, it is not issued again, and the job ends in the error of that
  request. Every selected bucket has a job with an outcome, whatever the other jobs did.
  The failures are logged as the results of the jobs are collected: the log is, in the
  order of completion, the error of every job that failed, so the loop goes on after a
  failure; every error is logged as many times as there are jobs that ended in it, and
  the log has one entry for each failed job. Putting any other client (a failing one,
  say) in the place of the client of one bucket leaves the outcomes of the jobs of all
  other buckets as they are.
\<close>

theorem bucket_failure_isolated:
  assumes "do a w = Inr (jobs, logged)"
    and "mset (completion w) = mset [0..<length jobs]"
  shows "(\<forall>(b, r) \<in> set jobs.
            r = purge (bucket_client w b) (clock_job w b) (days a)
                  (delete_method a = ''list_then_delete'') (dry_run a)
            \<and> (\<forall>es ev es'. trace (snd r) = es @ ev # es' \<and> request_raises (bucket_client w b) es ev
                   \<longrightarrow> es' = [] \<and> fst r = Some (request_error ev)))
       \<and> (\<exists>names. list_buckets w = Inr names \<and> map fst jobs = select_buckets a names)
       \<and> logged = concat (map (\<lambda>i. case fst (snd (jobs ! i)) of Some e \<Rightarrow> [e] | None \<Rightarrow> [])
                               (completion w))
       \<and> (\<forall>e. count_list logged e = length (filter (\<lambda>(b, r). fst r = Some e) jobs))
       \<and> length logged = length (filter (\<lambda>(b, r). fst r \<noteq> None) jobs)
       \<and> (\<forall>b' cl'. \<exists>jobs' logged'.
             do a (w\<lparr>bucket_client := (bucket_client w)(b' := cl')\<rparr>) = Inr (jobs', logged')
             \<and> map fst jobs' = map fst jobs
             \<and> (\<forall>(b, r) \<in> set jobs. b \<noteq> b' \<longrightarrow> (b, r) \<in> set jobs'))"
proof -
  have 1: "r = purge (bucket_client w b) (clock_job w b) (days a)
                  (delete_method a = ''list_then_delete'') (dry_run a)
            \<and> (\<forall>es ev es'. trace (snd r) = es @ ev # es' \<and> request_raises (bucket_client w b) es ev
                   \<longrightarrow> es' = [] \<and> fst r = Some (request_error ev))"
    if "(b, r) \<in> set jobs" for b r
  proof -
    from do_job [OF assms(1) that]
    have r: "r = purge (bucket_client w b) (clock_job w b) (days a)
                  (delete_method a = ''list_then_delete'') (dry_run a)" .
    from purge_aborts [of "bucket_client w b" "clock_job w b" "days a"
        "delete_method a = ''list_then_delete''" "dry_run a"] r
    have "aborts_at_raise (bucket_client w b) r" by simp
    with r show ?thesis unfolding aborts_at_raise_def by blast
  qed
  from do_Inr(1) [OF assms(1)]
  have 2: "\<exists>names. list_buckets w = Inr names \<and> map fst jobs = select_buckets a names"
    by (auto simp: comp_def)
  from do_Inr(2) [OF assms(1)]
  have 3: "logged = concat (map (\<lambda>i. case fst (snd (jobs ! i)) of Some e \<Rightarrow> [e] | None \<Rightarrow> [])
                               (completion w))"
    by (simp add: log_failures_concat comp_def)
  from mset_completed [OF assms(2), of snd]
  have "mset (map (\<lambda>i. snd (jobs ! i)) (completion w)) = mset (map snd jobs)" .
  from mset_log_failures [OF this] do_Inr(2) [OF assms(1)]
  have m: "mset logged = mset (log_failures (map snd jobs))" by simp
  have 4: "count_list logged e = length (filter (\<lambda>(b, r). fst r = Some e) jobs)" for e
  proof -
    have "count_list logged e = count (mset logged) e"
      by (simp only: count_mset)
    also have "\<dots> = count_list (log_failures (map snd jobs)) e"
      by (simp only: m count_mset)
    also have "\<dots> = length (filter (\<lambda>r. fst r = Some e) (map snd jobs))"
      by (rule count_list_log_failures)
    also have "\<dots> = length (filter (\<lambda>(b, r). fst r = Some e) jobs)"
      by (simp add: filter_map comp_def split_def)
    finally show ?thesis .
  qed
  have 5: "length logged = length (filter (\<lambda>(b, r). fst r \<noteq> None) jobs)"
  proof -
    have "length logged = size (mset logged)"
      by simp
    also have "\<dots> = length (log_failures (map snd jobs))"
      by (simp only: m size_mset)
    also have "\<dots> = length (filter (\<lambda>r. fst r \<noteq> None) (map snd jobs))"
      by (rule length_log_failures)
    also have "\<dots> = length (filter (\<lambda>(b, r). fst r \<noteq> None) jobs)"
      by (simp add: filter_map comp_def split_def)
    finally show ?thesis .
  qed
  from do_other_bucket [OF assms(1)]
  have 6: "\<forall>b' cl'. \<exists>jobs' logged'.
             do a (w\<lparr>bucket_client := (bucket_client w)(b' := cl')\<rparr>) = Inr (jobs', logged')
             \<and> map fst jobs' = map fst jobs
             \<and> (\<forall>(b, r) \<in> set jobs. b \<noteq> b' \<longrightarrow> (b, r) \<in> set jobs')"
    by blast
  from 1 2 3 4 5 6 show ?thesis by blast
qed

theorem bucket_failure_isolated_witness:
  "do fleet_args fleet_world = Inr (fleet_jobs, [KeyError ''Contents'', ListError])
   \<and> mset (completion fleet_world) = mset [0..<length fleet_jobs]
   \<and> length (filter (\<lambda>(b, r). fst r \<noteq> None) fleet_jobs) = 2
   \<and> length (filter (\<lambda>(b, r). fst r = Some ListError) fleet_jobs) = 1
   \<and> concat (map (\<lambda>i. case fst (snd (fleet_jobs ! i)) of Some e \<Rightarrow> [e] | None \<Rightarrow> [])
               (completion fleet_world))
       = [KeyError ''Contents'', ListError]
   \<and> (\<exists>names. list_buckets fleet_world = Inr names
         \<and> map fst fleet_jobs = select_buckets fleet_args names)
   \<and> request_raises (bucket_client fleet_world ''logs-a'') [ListObjects 1] (ListObjects 2)"
proof -
  have r: "request_raises (bucket_client fleet_world ''logs-a'') [ListObjects 1] (ListObjects 2)"
    by (simp add: fleet_world_def broken_bucket_def)
  have "[0..<4] = [0, 1, 2, 3::nat]"
    by code_simp
  then have "mset (completion fleet_world) = mset [0..<4]"
    by (simp add: fleet_world_def add_mset_commute del: mset_upt)
  moreover have "length fleet_jobs = 4"
    by (simp add: fleet_jobs_def)
  ultimately have p: "mset (completion fleet_world) = mset [0..<length fleet_jobs]"
    by (simp only:)
  note t = bucket_failure_isolated [OF fleet_run p]
  from t have "length [KeyError ''Contents'', ListError]
      = length (filter (\<lambda>(b, r). fst r \<noteq> None) fleet_jobs)"
    by blast
  then have a: "length (filter (\<lambda>(b, r). fst r \<noteq> None) fleet_jobs) = 2"
    by simp
  from t have "count_list [KeyError ''Contents'', ListError] ListError
      = length (filter (\<lambda>(b, r). fst r = Some ListError) fleet_jobs)"
    by blast
  then have b: "length (filter (\<lambda>(b, r). fst r = Some ListError) fleet_jobs) = 1"
    by simp
  from t have c: "concat (map (\<lambda>i. case fst (snd (fleet_jobs ! i)) of Some e \<Rightarrow> [e] | None \<Rightarrow> [])
               (completion fleet_world))
       = [KeyError ''Contents'', ListError]"
    by (simp only:)
  from t have d: "\<exists>names. list_buckets fleet_world = Inr names
         \<and> map fst fleet_jobs = select_buckets fleet_args names"
    by blast
  from fleet_run p a b c d r show ?thesis
    by (simp only:) 
qed

section \<open>The cutoff of a job\<close>

text \<open>
  Two buckets with the same listing in one run of \<^verbatim>\<open>do\<close>: the job that reads the date
  before midnight keeps the object, the job that reads it after midnight deletes it.
\<close>

theorem cutoff_differs_between_buckets_counterexample:
  "do midnight_args midnight_world
     = Inr ([(''a'', (None, \<lparr>total = 0, to_be_deleted = [], trace = [ListObjects 1]\<rparr>)),
             (''b'', (None, \<lparr>total = 1, to_be_deleted = [''k''],
                             trace = [ListObjects 1, DeleteObjects [''k'']]\<rparr>))], [])
   \<and> bucket_client midnight_world ''a'' = bucket_client midnight_world ''b''
   \<and> compute_cutoff (clock_job midnight_world ''a'') (days midnight_args) = Inr 1704067200000000
   \<and> compute_cutoff (clock_job midnight_world ''b'') (days midnight_args) = Inr 1704153600000000"
  by (simp add: midnight_run)
     (simp add: midnight_args_def midnight_world_def compute_cutoff_def date_min_def date_max_def
        usec_per_day_def)

text \<open>
  C8, amended. Each job computes its own cutoff, once, before it lists: midnight of the
  date that \<^verbatim>\<open>date.today()\<close> returns when the job starts, labelled UTC, minus
  \<open>max_days\<close> days. All pages of the bucket are judged against that one value: every
  key the job deletes belongs to a listed object at or before it, and a job that
  completes counts (and, unless dry, deletes) exactly the listed objects at or before it.
  Jobs of one run that read the same date use the same cutoff, and it is the cutoff
  \<^verbatim>\<open>do\<close> logged when they read the date \<^verbatim>\<open>do\<close> read.
\<close>

theorem cutoff_once_per_job:
  assumes "do a w = Inr (jobs, logged)" and "(b, r) \<in> set jobs"
    and "compute_cutoff (clock_job w b) (days a) = Inr c"
  shows "c = (clock_job w b - days a) * usec_per_day
       \<and> (\<forall>ks \<in> set (delete_calls r).
             set ks \<subseteq> Key ` {ob \<in> set (listed_objs (pages (bucket_client w b))). LastModified ob \<le> c})
       \<and> (fst r = None \<longrightarrow>
             total (snd r)
               = length (filter (\<lambda>ob. LastModified ob \<le> c) (listed_objs (pages (bucket_client w b))))
             \<and> (\<not> dry_run a \<longrightarrow>
                  concat (delete_calls r)
                    = map Key (filter (\<lambda>ob. LastModified ob \<le> c)
                                 (listed_objs (pages (bucket_client w b))))))
       \<and> (\<forall>(b', r') \<in> set jobs. clock_job w b' = clock_job w b \<longrightarrow>
             compute_cutoff (clock_job w b') (days a) = Inr c)
       \<and> (clock_job w b = clock_main w \<longrightarrow> compute_cutoff (clock_main w) (days a) = Inr c)"
proof -
  let ?cl = "bucket_client w b"
  let ?ltd = "delete_method a = ''list_then_delete''"
  from do_job [OF assms(1,2)]
  have r: "r = purge ?cl (clock_job w b) (days a) ?ltd (dry_run a)" .
  from assms(3) have 1: "c = (clock_job w b - days a) * usec_per_day"
    by (auto simp: compute_cutoff_def Let_def split: if_splits)
  have 2: "set ks \<subseteq> Key ` {ob \<in> set (listed_objs (pages ?cl)). LastModified ob \<le> c}"
    if ks: "ks \<in> set (delete_calls r)" for ks
  proof -
    from purge_calls [OF assms(3), of ?cl ?ltd "dry_run a"] r obtain n where
      n: "delete_calls r = take n (if dry_run a then [] else planned_calls ?ltd c (pages ?cl))"
      by blast
    from ks n have nd: "\<not> dry_run a" by (cases "dry_run a") simp_all
    with ks n have "ks \<in> set (take n (planned_calls ?ltd c (pages ?cl)))" by simp
    then have pl: "ks \<in> set (planned_calls ?ltd c (pages ?cl))" by (rule in_set_takeD)
    show ?thesis
    proof (cases ?ltd)
      case True
      with pl have "ks \<in> set (chunks (all_eligible_keys c (pages ?cl)))"
        by (simp add: planned_calls_def)
      from chunk_cases [OF this] show ?thesis
        by (simp add: set_all_eligible_keys)
    next
      case False
      with pl have "ks \<in> set (per_page_calls c (pages ?cl))"
        by (simp add: planned_calls_def)
      from per_page_call_cases [OF this] show ?thesis
        by (simp add: set_all_eligible_keys)
    qed
  qed
  have 3: "total (snd r) = length (filter (\<lambda>ob. LastModified ob \<le> c) (listed_objs (pages ?cl)))
             \<and> (\<not> dry_run a \<longrightarrow>
                  concat (delete_calls r)
                    = map Key (filter (\<lambda>ob. LastModified ob \<le> c) (listed_objs (pages ?cl))))"
    if ok: "fst r = None"
  proof -
    from ok r have ok': "fst (purge ?cl (clock_job w b) (days a) ?ltd (dry_run a)) = None" by simp
    note s = purge_success [OF assms(3) ok']
    from s r have t: "total (snd r) = length (all_eligible_keys c (pages ?cl))" by simp
    have "concat (delete_calls r) = all_eligible_keys c (pages ?cl)" if nd: "\<not> dry_run a"
    proof -
      from s r nd
      have "delete_calls r = (if ?ltd then chunks (all_eligible_keys c (pages ?cl))
                             else per_page_calls c (pages ?cl))"
        by (simp add: delete_calls_def delete_calls_of_append delete_calls_of_listing_trace
              delete_calls_of_map_DeleteObjects)
      with chunks_props [of "all_eligible_keys c (pages ?cl)"]
        concat_per_page_calls [of c "pages ?cl"]
      show ?thesis by (cases ?ltd) simp_all
    qed
    with t show ?thesis by (simp add: length_all_eligible_filter)
  qed
  from assms(3) have 4: "\<forall>(b', r') \<in> set jobs. clock_job w b' = clock_job w b \<longrightarrow>
             compute_cutoff (clock_job w b') (days a) = Inr c"
    by auto
  from assms(3) have 5: "clock_job w b = clock_main w \<longrightarrow> compute_cutoff (clock_main w) (days a) = Inr c"
    by auto
  from 1 2 3 4 5 show ?thesis by blast
qed

theorem cutoff_once_per_job_witness:
  "do midnight_args midnight_world
     = Inr ([(''a'', (None, \<lparr>total = 0, to_be_deleted = [], trace = [ListObjects 1]\<rparr>)),
             (''b'', (None, \<lparr>total = 1, to_be_deleted = [''k''],
                             trace = [ListObjects 1, DeleteObjects [''k'']]\<rparr>))], [])
   \<and> compute_cutoff (clock_job midnight_world ''b'') (days midnight_args) = Inr 1704153600000000
   \<and> (1704153600000000::int) = (clock_job midnight_world ''b'' - days midnight_args) * usec_per_day
   \<and> compute_cutoff (clock_job midnight_world ''a'') (days midnight_args)
       = compute_cutoff (clock_main midnight_world) (days midnight_args)"
proof -
  have c: "compute_cutoff (clock_job midnight_world ''b'') (days midnight_args) = Inr 1704153600000000"
    by (simp add: midnight_args_def midnight_world_def compute_cutoff_def date_min_def date_max_def
          usec_per_day_def)
  have m: "(''b'', (None, \<lparr>total = 1, to_be_deleted = [''k''],
                             trace = [ListObjects 1, DeleteObjects [''k'']]\<rparr>))
        \<in> set [(''a'', (None, \<lparr>total = 0, to_be_deleted = [], trace = [ListObjects 1]\<rparr>)),
             (''b'', (None, \<lparr>total = 1, to_be_deleted = [''k''],
                             trace = [ListObjects 1, DeleteObjects [''k'']]\<rparr>))]"
    by simp
  have e: "compute_cutoff (clock_job midnight_world ''a'') (days midnight_args)
       = compute_cutoff (clock_main midnight_world) (days midnight_args)"
    by (simp add: midnight_world_def)
  from cutoff_once_per_job [OF midnight_run m c]
  have "(1704153600000000::int) = (clock_job midnight_world ''b'' - days midnight_args) * usec_per_day"
    by (rule conjunct1)
  with midnight_run c e show ?thesis by blast
qed

end
